theory Spec2Isabelle
  imports Complex_Main
begin

section \<open>Configuration (tools/routers/router_dynamic.py, lines 11-29)\<close>

text \<open>
  The thresholds of the router. Times are seconds and are modelled as real numbers;
  queue lengths are natural numbers (the results of \<^verbatim>\<open>len\<close>); request counters and
  token estimates are Python integers.
\<close>

definition HAP_HIGH_WATERMARK :: nat where
  "HAP_HIGH_WATERMARK = 10"

definition HAP_LOW_WATERMARK :: nat where
  "HAP_LOW_WATERMARK = 2"

definition HAP_COOLDOWN :: real where
  "HAP_COOLDOWN = 5"

definition RASP_STEAL_COOLDOWN :: real where
  "RASP_STEAL_COOLDOWN = 2"

definition WORKER_CONCURRENCY_LIMIT :: int where
  "WORKER_CONCURRENCY_LIMIT = 8"

definition WORKER_URLS :: "string list" where
  "WORKER_URLS =
     [''http://localhost:8001/v1/chat/completions'',
      ''http://localhost:8002/v1/chat/completions'',
      ''http://localhost:8003/v1/chat/completions'',
      ''http://localhost:8004/v1/chat/completions'']"

definition STATIC_THRESHOLD :: int where
  "STATIC_THRESHOLD = 3000"

section \<open>Worker\<close>

datatype TaskType = LONG | SHORT

text \<open>
  The class \<^verbatim>\<open>Worker\<close>. The field \<^verbatim>\<open>id\<close> is called \<open>worker_id\<close> here. Every method
  that reads the clock (\<^verbatim>\<open>time.time()\<close>) takes the reading as its argument \<open>now\<close>.
\<close>

record Worker =
  worker_id :: nat
  url :: string
  current_role :: TaskType
  active_requests :: int
  last_active_time :: real

definition Worker_init :: "nat \<Rightarrow> string \<Rightarrow> real \<Rightarrow> Worker" where
  "Worker_init wid u now =
     \<lparr>worker_id = wid, url = u, current_role = LONG, active_requests = 0,
      last_active_time = now\<rparr>"

definition inc_requests :: "Worker \<Rightarrow> Worker" where
  "inc_requests w = w\<lparr>active_requests := active_requests w + 1\<rparr>"

definition dec_requests :: "real \<Rightarrow> Worker \<Rightarrow> Worker" where
  "dec_requests now w =
     (let w1 = w\<lparr>active_requests := max 0 (active_requests w - 1)\<rparr>
      in if active_requests w1 = 0 then w1\<lparr>last_active_time := now\<rparr> else w1)"

definition can_accept :: "Worker \<Rightarrow> bool" where
  "can_accept w = (active_requests w < WORKER_CONCURRENCY_LIMIT)"

definition get_idle_duration :: "real \<Rightarrow> Worker \<Rightarrow> real" where
  "get_idle_duration now w =
     (if active_requests w > 0 then 0 else now - last_active_time w)"

section \<open>Requests\<close>

text \<open>
  The request body is parsed JSON. It holds the list of messages under the key
  \<^verbatim>\<open>messages\<close>, or nothing (the key is absent or null). A message is a dictionary from
  keys to JSON values. The router reads a value only through \<^verbatim>\<open>str()\<close>: null is rendered
  as \<^verbatim>\<open>None\<close>, a boolean as \<^verbatim>\<open>True\<close> or \<^verbatim>\<open>False\<close>, a text as itself; any other value (a
  number, a list, an object) is given here by the text that \<^verbatim>\<open>str()\<close> makes of it. One
  character of the model stands for one character of the Python string.
\<close>

datatype json_value = Json_null | Json_bool bool | Json_text string | Json_other string

fun py_str :: "json_value \<Rightarrow> string" where
  "py_str Json_null = ''None''"
| "py_str (Json_bool b) = (if b then ''True'' else ''False'')"
| "py_str (Json_text t) = t"
| "py_str (Json_other rendering) = rendering"

type_synonym message = "string \<rightharpoonup> json_value"

record Body =
  messages :: "message list option"

text \<open>
  An entry of a wait queue is the tuple \<^verbatim>\<open>(future, body, request)\<close>; the future is named
  by its number, and the request object, which the scheduler never reads, is left out.
\<close>

type_synonym pending = "nat \<times> Body"

definition estimate_token_count :: "message list \<Rightarrow> int" where
  "estimate_token_count msgs =
     (case msgs of
        [] \<Rightarrow> 0
      | _ # _ \<Rightarrow>
          (let txt = concat (map (\<lambda>m. py_str (case m ''content'' of None \<Rightarrow> Json_text ''''
                                                                     | Some c \<Rightarrow> c)) msgs)
           in int (length txt) div 4))"

section \<open>Scheduler\<close>

record Scheduler =
  workers :: "Worker list"
  queue_long :: "pending list"
  queue_short :: "pending list"
  last_rebalance_time :: real

text \<open>
  \<^verbatim>\<open>AdaSplitScheduler.__init__\<close>: one worker per URL, numbered from 1, then the roles
  of the four workers are set to LONG, LONG, SHORT, SHORT. The clock readings of the
  construction are taken to be the same instant \<open>now\<close>.
\<close>

definition Scheduler_init :: "real \<Rightarrow> Scheduler" where
  "Scheduler_init now =
     (let ws0 = map (\<lambda>(i, u). Worker_init (i + 1) u now) (enumerate 0 WORKER_URLS);
          ws1 = ws0[0 := (ws0 ! 0)\<lparr>current_role := LONG\<rparr>];
          ws2 = ws1[1 := (ws1 ! 1)\<lparr>current_role := LONG\<rparr>];
          ws3 = ws2[2 := (ws2 ! 2)\<lparr>current_role := SHORT\<rparr>];
          ws4 = ws3[3 := (ws3 ! 3)\<lparr>current_role := SHORT\<rparr>]
      in \<lparr>workers = ws4, queue_long = [], queue_short = [], last_rebalance_time = now\<rparr>)"

definition get_partition_status :: "Scheduler \<Rightarrow> nat \<times> nat" where
  "get_partition_status s =
     (length (filter (\<lambda>w. current_role w = LONG) (workers s)),
      length (filter (\<lambda>w. current_role w = SHORT) (workers s)))"

text \<open>
  One pass of the body of the \<^verbatim>\<open>while True\<close> loop of \<^verbatim>\<open>run_qhap_loop\<close>, after the
  sleep. A worker is named by its position in \<^verbatim>\<open>self.workers\<close>; \<^verbatim>\<open>next(..., None)\<close>
  over the workers, or over the reversed workers, is \<open>find\<close> over the positions.
\<close>

definition set_role :: "nat \<Rightarrow> TaskType \<Rightarrow> Worker list \<Rightarrow> Worker list" where
  "set_role t r ws = ws[t := (ws ! t)\<lparr>current_role := r\<rparr>]"

definition run_qhap_loop :: "real \<Rightarrow> Scheduler \<Rightarrow> Scheduler" where
  "run_qhap_loop now s =
     (if now - last_rebalance_time s < HAP_COOLDOWN then s
      else
        (let q_long_size = length (queue_long s);
             n_long = fst (get_partition_status s);
             n_short = snd (get_partition_status s)
         in if q_long_size > HAP_HIGH_WATERMARK \<and> n_short > 1 then
              (case find (\<lambda>i. current_role (workers s ! i) = SHORT) [0..<length (workers s)] of
                 Some target \<Rightarrow>
                   s\<lparr>workers := set_role target LONG (workers s), last_rebalance_time := now\<rparr>
               | None \<Rightarrow> s)
            else if q_long_size < HAP_LOW_WATERMARK \<and> n_long > 2 then
              (case find (\<lambda>i. current_role (workers s ! i) = LONG)
                      (rev [0..<length (workers s)]) of
                 Some target \<Rightarrow>
                   s\<lparr>workers := set_role target SHORT (workers s), last_rebalance_time := now\<rparr>
               | None \<Rightarrow> s)
            else s))"

text \<open>
  Python's \<^verbatim>\<open>min(candidates, key=...)\<close> keeps the first element whose key is minimal: a
  later element replaces the current best only if its key is strictly smaller.
\<close>

fun min_by :: "('a \<Rightarrow> int) \<Rightarrow> 'a \<Rightarrow> 'a list \<Rightarrow> 'a" where
  "min_by key best [] = best"
| "min_by key best (x # xs) = min_by key (if key x < key best then x else best) xs"

definition try_get_worker :: "real \<Rightarrow> Scheduler \<Rightarrow> TaskType \<Rightarrow> nat option" where
  "try_get_worker now s task_type =
     (let candidates =
            filter (\<lambda>i. current_role (workers s ! i) = task_type \<and> can_accept (workers s ! i))
              [0..<length (workers s)]
      in case candidates of
           c # cs \<Rightarrow> Some (min_by (\<lambda>i. active_requests (workers s ! i)) c cs)
         | [] \<Rightarrow>
             if task_type = LONG then
               (let short_q_empty = (length (queue_short s) = 0)
                in find (\<lambda>i. current_role (workers s ! i) = SHORT \<and> can_accept (workers s ! i)
                              \<and> short_q_empty
                              \<and> get_idle_duration now (workers s ! i) > RASP_STEAL_COOLDOWN)
                     [0..<length (workers s)])
             else None)"

section \<open>Dispatch of the wait queues\<close>

text \<open>
  Work handed to the event loop by \<^verbatim>\<open>asyncio.create_task\<close>: a call of \<^verbatim>\<open>run_task\<close> for a
  worker (by position) and a queue entry, or a call of \<^verbatim>\<open>dispatch_queue\<close>. A created task
  does not run before the code that created it gives control back to the event loop.
\<close>

datatype task = Run_task nat pending | Dispatch_queue

text \<open>
  The two \<^verbatim>\<open>while\<close> loops of \<^verbatim>\<open>dispatch_queue\<close>. The coroutine has no \<^verbatim>\<open>await\<close>, so it runs
  in one piece; the tasks it creates are collected in creation order. The clock readings
  of one run are taken to be the same instant \<open>now\<close>.
\<close>

function drain_short :: "real \<Rightarrow> Scheduler \<Rightarrow> task list \<Rightarrow> Scheduler \<times> task list" where
  "drain_short now s created =
     (case queue_short s of
        [] \<Rightarrow> (s, created)
      | p # ps \<Rightarrow>
          (case try_get_worker now s SHORT of
             Some worker \<Rightarrow>
               drain_short now (s\<lparr>queue_short := ps\<rparr>) (created @ [Run_task worker p])
           | None \<Rightarrow> (s, created)))"
  by pat_completeness auto
termination
  by (relation "measure (\<lambda>(now, s, created). length (queue_short s))") auto

function drain_long :: "real \<Rightarrow> Scheduler \<Rightarrow> task list \<Rightarrow> Scheduler \<times> task list" where
  "drain_long now s created =
     (case queue_long s of
        [] \<Rightarrow> (s, created)
      | p # ps \<Rightarrow>
          (case try_get_worker now s LONG of
             Some worker \<Rightarrow>
               drain_long now (s\<lparr>queue_long := ps\<rparr>) (created @ [Run_task worker p])
           | None \<Rightarrow> (s, created)))"
  by pat_completeness auto
termination
  by (relation "measure (\<lambda>(now, s, created). length (queue_long s))") auto

definition dispatch_queue :: "real \<Rightarrow> Scheduler \<Rightarrow> Scheduler \<times> task list" where
  "dispatch_queue now s =
     (let (s1, created1) = drain_short now s []
      in drain_long now s1 created1)"

section \<open>The router as a system of cooperating tasks\<close>

text \<open>
  The outcome of \<^verbatim>\<open>http_client.send\<close>: a response with its status code, or an exception.
\<close>

datatype send_outcome = Responded nat | Raised

text \<open>
  An \<^verbatim>\<open>asyncio.Future\<close> of a queued request: pending, or resolved by \<^verbatim>\<open>set_result\<close> with a
  streaming response (its status code), or by \<^verbatim>\<open>set_exception\<close>.
\<close>

datatype future_state = Unresolved | Has_result nat | Has_exception

text \<open>The calls of \<^verbatim>\<open>inc_requests\<close> and \<^verbatim>\<open>dec_requests\<close>, by worker position.\<close>

datatype call = Inc nat | Dec nat

text \<open>
  The state of the process: the scheduler singleton; the tasks created and not yet
  started, in creation order; the calls of \<^verbatim>\<open>process_request\<close> suspended in
  \<^verbatim>\<open>await http_client.send\<close>, each with its worker and, when \<^verbatim>\<open>run_task\<close> made the call, the
  future to resolve; the futures created so far; the log of counter calls.
\<close>

record System =
  scheduler :: Scheduler
  ready :: "task list"
  sending :: "(nat \<times> nat option) list"
  futures :: "future_state list"
  calls :: "call list"

definition System_init :: "real \<Rightarrow> System" where
  "System_init now =
     \<lparr>scheduler = Scheduler_init now, ready = [], sending = [], futures = [], calls = []\<rparr>"

definition update_worker :: "nat \<Rightarrow> (Worker \<Rightarrow> Worker) \<Rightarrow> Scheduler \<Rightarrow> Scheduler" where
  "update_worker i f s = s\<lparr>workers := (workers s)[i := f (workers s ! i)]\<rparr>"

text \<open>
  \<^verbatim>\<open>process_request\<close> up to its suspension in \<^verbatim>\<open>await http_client.send(...)\<close>: the counter
  of the worker is incremented.
\<close>

definition process_request_begin :: "nat \<Rightarrow> nat option \<Rightarrow> System \<Rightarrow> System" where
  "process_request_begin worker fut sys =
     sys\<lparr>scheduler := update_worker worker inc_requests (scheduler sys),
         calls := calls sys @ [Inc worker],
         sending := sending sys @ [(worker, fut)]\<rparr>"

text \<open>
  \<^verbatim>\<open>process_request\<close> from the return of \<^verbatim>\<open>send\<close>: the \<^verbatim>\<open>finally\<close> block decrements the
  counter and creates a \<^verbatim>\<open>dispatch_queue\<close> task; the call returns the streaming response
  with the status code of the backend (\<open>Inr\<close>), or the exception goes on to the caller
  (\<open>Inl\<close>).
\<close>

definition process_request_end ::
  "real \<Rightarrow> nat \<Rightarrow> send_outcome \<Rightarrow> System \<Rightarrow> (unit + nat) \<times> System" where
  "process_request_end now worker outcome sys =
     (let result = (case outcome of Responded status_code \<Rightarrow> Inr status_code | Raised \<Rightarrow> Inl ());
          sys1 = sys\<lparr>scheduler := update_worker worker (dec_requests now) (scheduler sys),
                     calls := calls sys @ [Dec worker],
                     ready := ready sys @ [Dispatch_queue]\<rparr>
      in (result, sys1))"

text \<open>\<^verbatim>\<open>run_task\<close> from the return of \<^verbatim>\<open>send\<close>: the result or the exception goes to the future.\<close>

definition run_task_end :: "real \<Rightarrow> nat \<Rightarrow> nat \<Rightarrow> send_outcome \<Rightarrow> System \<Rightarrow> System" where
  "run_task_end now worker fut outcome sys =
     (case process_request_end now worker outcome sys of
        (Inr response, sys1) \<Rightarrow> sys1\<lparr>futures := (futures sys1)[fut := Has_result response]\<rparr>
      | (Inl e, sys1) \<Rightarrow> sys1\<lparr>futures := (futures sys1)[fut := Has_exception]\<rparr>)"

text \<open>
  The handler \<^verbatim>\<open>chat_completions\<close> from the parsed body up to its first suspension: in
  \<^verbatim>\<open>process_request\<close>, or in \<^verbatim>\<open>await future\<close> after queueing. Its first two statements,
  the estimate over \<^verbatim>\<open>body.get("messages", [])\<close> and the comparison with the threshold,
  are \<open>task_type_of\<close>.
\<close>

definition task_type_of :: "Body \<Rightarrow> TaskType" where
  "task_type_of body =
     (let token_len = estimate_token_count (case messages body of None \<Rightarrow> [] | Some ms \<Rightarrow> ms)
      in if token_len > STATIC_THRESHOLD then LONG else SHORT)"

definition chat_completions :: "real \<Rightarrow> Body \<Rightarrow> System \<Rightarrow> System" where
  "chat_completions now body sys =
     (let task_type = task_type_of body
      in case try_get_worker now (scheduler sys) task_type of
           Some worker \<Rightarrow> process_request_begin worker None sys
         | None \<Rightarrow>
             (let future = length (futures sys);
                  sys1 = sys\<lparr>futures := futures sys @ [Unresolved]\<rparr>;
                  s = scheduler sys1
              in if task_type = LONG
                 then sys1\<lparr>scheduler := s\<lparr>queue_long := queue_long s @ [(future, body)]\<rparr>\<rparr>
                 else sys1\<lparr>scheduler := s\<lparr>queue_short := queue_short s @ [(future, body)]\<rparr>\<rparr>))"

text \<open>
  What the event loop can do next: a request arrives; the oldest ready task starts; the
  \<open>k\<close>-th suspended \<^verbatim>\<open>send\<close> returns; the rebalancer wakes from its sleep. Each event
  carries the clock reading of its run. An event that is not possible in a state (no
  ready task, no such \<^verbatim>\<open>send\<close>) leaves the state as it is.
\<close>

datatype event =
  Arrive Body real
| Run_next real
| Send_done nat send_outcome real
| Tick real

fun step :: "event \<Rightarrow> System \<Rightarrow> System" where
  "step (Arrive body now) sys = chat_completions now body sys"
| "step (Run_next now) sys =
     (case ready sys of
        [] \<Rightarrow> sys
      | Dispatch_queue # ts \<Rightarrow>
          (let (s1, created) = dispatch_queue now (scheduler sys)
           in sys\<lparr>scheduler := s1, ready := ts @ created\<rparr>)
      | Run_task worker p # ts \<Rightarrow>
          process_request_begin worker (Some (fst p)) (sys\<lparr>ready := ts\<rparr>))"
| "step (Send_done k outcome now) sys =
     (if k < length (sending sys) then
        (let sys1 = sys\<lparr>sending := take k (sending sys) @ drop (Suc k) (sending sys)\<rparr>
         in case sending sys ! k of
              (worker, None) \<Rightarrow> snd (process_request_end now worker outcome sys1)
            | (worker, Some fut) \<Rightarrow> run_task_end now worker fut outcome sys1)
      else sys)"
| "step (Tick now) sys = sys\<lparr>scheduler := run_qhap_loop now (scheduler sys)\<rparr>"

fun run :: "event list \<Rightarrow> System \<Rightarrow> System" where
  "run [] sys = sys"
| "run (e # es) sys = run es (step e sys)"

section \<open>Auxiliary notions for the statements\<close>

text \<open>The local \<^verbatim>\<open>candidates\<close> of \<^verbatim>\<open>try_get_worker\<close>: the positions of the home workers with room.\<close>

definition home_candidates :: "Scheduler \<Rightarrow> TaskType \<Rightarrow> nat list" where
  "home_candidates s task_type =
     filter (\<lambda>i. current_role (workers s ! i) = task_type \<and> can_accept (workers s ! i))
       [0..<length (workers s)]"

text \<open>The queue entries that a list of created tasks carries, in creation order.\<close>

fun task_entries :: "task list \<Rightarrow> pending list" where
  "task_entries [] = []"
| "task_entries (Run_task worker p # ts) = p # task_entries ts"
| "task_entries (Dispatch_queue # ts) = task_entries ts"

text \<open>The roles of the workers, in the fixed order of \<^verbatim>\<open>self.workers\<close>.\<close>

definition roles :: "System \<Rightarrow> TaskType list" where
  "roles sys = map current_role (workers (scheduler sys))"

text \<open>Every rebalancer wake-up of a trace reads a clock less than the cooldown after \<open>t\<close>.\<close>

fun ticks_within_cooldown :: "real \<Rightarrow> event list \<Rightarrow> bool" where
  "ticks_within_cooldown t [] = True"
| "ticks_within_cooldown t (Tick now # es) = (now - t < HAP_COOLDOWN \<and> ticks_within_cooldown t es)"
| "ticks_within_cooldown t (e # es) = ticks_within_cooldown t es"

text \<open>How often \<^verbatim>\<open>inc_requests\<close> and \<^verbatim>\<open>dec_requests\<close> were called on a worker.\<close>

definition accepts :: "System \<Rightarrow> nat \<Rightarrow> int" where
  "accepts sys i = int (count_list (calls sys) (Inc i))"

definition releases :: "System \<Rightarrow> nat \<Rightarrow> int" where
  "releases sys i = int (count_list (calls sys) (Dec i))"

section \<open>Example requests and runs\<close>

definition short_body :: Body where
  "short_body = \<lparr>messages = Some [[''role'' \<mapsto> Json_text ''user'', ''content'' \<mapsto> Json_text ''Hello'']]\<rparr>"

definition long_body :: Body where
  "long_body =
     \<lparr>messages = Some [[''role'' \<mapsto> Json_text ''user'',
                        ''content'' \<mapsto> Json_text (replicate 12004 (CHR ''a''))]]\<rparr>"

text \<open>
  Sixteen short requests fill the two SHORT workers, two more are queued; one forward
  returns, the drain it triggers runs, and the two tasks the drain created start.
\<close>

definition overload_prefix :: "event list" where
  "overload_prefix =
     replicate 18 (Arrive short_body 1) @ [Send_done 0 (Responded 200) 2, Run_next 2]"

definition overload_trace :: "event list" where
  "overload_trace = overload_prefix @ [Run_next 2, Run_next 2]"

text \<open>
  Sixteen long requests fill the two LONG workers and eleven more are queued, all within
  the steal cooldown of the SHORT workers.
\<close>

definition backlog_trace :: "event list" where
  "backlog_trace = replicate 27 (Arrive long_body 1)"

definition backlog_system :: System where
  "backlog_system = run backlog_trace (System_init 0)"

text \<open>Sixteen long requests fill the two LONG workers; the SHORT workers stay idle.\<close>

definition long_full_system :: System where
  "long_full_system = run (replicate 16 (Arrive long_body 1)) (System_init 0)"

text \<open>Three short requests: two are on the first SHORT worker, one on the second.\<close>

definition three_short_system :: System where
  "three_short_system = run (replicate 3 (Arrive short_body 1)) (System_init 0)"

text \<open>
  Both pairs of workers are full and two requests wait in each queue; then one forward
  on a SHORT worker and one on a LONG worker return.
\<close>

definition mixed_trace :: "event list" where
  "mixed_trace =
     replicate 18 (Arrive short_body 1) @ replicate 18 (Arrive long_body 1)
     @ [Send_done 0 (Responded 200) 2, Send_done 15 (Responded 200) 2]"

definition mixed_system :: System where
  "mixed_system = run mixed_trace (System_init 0)"

text \<open>
  After the backlog, the rebalancer wakes at time 5 and scales up. Then a forward on a
  LONG worker returns and the drain it triggers empties the LONG queue, so that a wake-up
  would scale down again; the wake-ups at times 6 and 9 are within the cooldown.
\<close>

definition relief_trace :: "event list" where
  "relief_trace = [Send_done 0 (Responded 200) 5, Run_next 5, Tick 6, Tick 9]"

text \<open>A worker of the initial scheduler, by position, with a given role, counter and idle stamp.\<close>

definition worker_at :: "nat \<Rightarrow> TaskType \<Rightarrow> int \<Rightarrow> real \<Rightarrow> Worker" where
  "worker_at i r n t =
     \<lparr>worker_id = i + 1, url = WORKER_URLS ! i, current_role = r, active_requests = n,
      last_active_time = t\<rparr>"

text \<open>A request of 12003 characters: the estimate is exactly the threshold.\<close>

definition boundary_body :: Body where
  "boundary_body =
     \<lparr>messages =
        Some [[''role'' \<mapsto> Json_text ''user'',
               ''content'' \<mapsto> Json_text (replicate 12000 (CHR ''a''))],
              [''role'' \<mapsto> Json_text ''user''],
              [''role'' \<mapsto> Json_text ''user'', ''content'' \<mapsto> Json_text ''abc'']]\<rparr>"

text \<open>
  A conversation whose only text has 12000 characters, and the same conversation with
  one more message whose content is null (as an assistant message that only calls a
  tool has it).
\<close>

definition text_messages :: "message list" where
  "text_messages =
     [[''role'' \<mapsto> Json_text ''user'',
       ''content'' \<mapsto> Json_text (replicate 12000 (CHR ''a''))]]"

definition null_messages :: "message list" where
  "null_messages =
     text_messages @ [[''role'' \<mapsto> Json_text ''assistant'', ''content'' \<mapsto> Json_null]]"

text \<open>
  The forwards of a worker that are suspended in \<^verbatim>\<open>send\<close>, and the bookkeeping that holds
  between the counters, the suspended forwards and the log of counter calls.
\<close>

definition in_flight :: "System \<Rightarrow> nat \<Rightarrow> int" where
  "in_flight sys i = int (length (filter (\<lambda>e. fst e = i) (sending sys)))"

fun task_in_range :: "nat \<Rightarrow> task \<Rightarrow> bool" where
  "task_in_range n (Run_task worker p) = (worker < n)"
| "task_in_range n Dispatch_queue = True"

definition consistent :: "System \<Rightarrow> bool" where
  "consistent sys \<longleftrightarrow>
     list_all (\<lambda>e. fst e < length (workers (scheduler sys))) (sending sys)
     \<and> list_all (task_in_range (length (workers (scheduler sys)))) (ready sys)
     \<and> (\<forall>i. i < length (workers (scheduler sys)) \<longrightarrow>
           active_requests (workers (scheduler sys) ! i) = in_flight sys i
           \<and> accepts sys i - releases sys i = in_flight sys i)"

section \<open>The earlier router (tools/router_dynamic.py)\<close>

text \<open>
  The earlier version of the router keeps a busy flag per worker instead of a counter;
  its \<^verbatim>\<open>try_get_worker\<close> takes the first idle home worker and has the same stealing
  rule. Its names carry the prefix \<open>slot\<close> here, next to those of the later version.
\<close>

record Slot_worker =
  slot_id :: nat
  slot_url :: string
  slot_role :: TaskType
  is_busy :: bool
  slot_last_active_time :: real

definition slot_get_idle_duration :: "real \<Rightarrow> Slot_worker \<Rightarrow> real" where
  "slot_get_idle_duration now w = (if is_busy w then 0 else now - slot_last_active_time w)"

record Slot_scheduler =
  slot_workers :: "Slot_worker list"
  slot_queue_long :: "pending list"
  slot_queue_short :: "pending list"
  slot_last_rebalance_time :: real

definition slot_try_get_worker :: "real \<Rightarrow> Slot_scheduler \<Rightarrow> TaskType \<Rightarrow> nat option" where
  "slot_try_get_worker now s task_type =
     (let candidates =
            filter (\<lambda>i. slot_role (slot_workers s ! i) = task_type \<and> \<not> is_busy (slot_workers s ! i))
              [0..<length (slot_workers s)]
      in case candidates of
           c # cs \<Rightarrow> Some c
         | [] \<Rightarrow>
             if task_type = LONG then
               (let short_q_empty = (length (slot_queue_short s) = 0)
                in find (\<lambda>i. slot_role (slot_workers s ! i) = SHORT
                              \<and> \<not> is_busy (slot_workers s ! i)
                              \<and> short_q_empty
                              \<and> slot_get_idle_duration now (slot_workers s ! i) > RASP_STEAL_COOLDOWN)
                     [0..<length (slot_workers s)])
             else None)"

text \<open>
  Both pairs of workers are full and two requests wait in each queue; then one forward
  on a LONG worker returns, while both SHORT workers stay full.
\<close>

definition blocked_trace :: "event list" where
  "blocked_trace =
     replicate 18 (Arrive short_body 1) @ replicate 18 (Arrive long_body 1)
     @ [Send_done 16 (Responded 200) 2]"

definition blocked_system :: System where
  "blocked_system = run blocked_trace (System_init 0)"

section \<open>Release of a worker\<close>

lemma dec_requests_active:
  "active_requests (dec_requests now w) = max 0 (active_requests w - 1)"
  by (simp add: dec_requests_def Let_def)

lemma dec_requests_time:
  "last_active_time (dec_requests now w) =
     (if active_requests w \<le> 1 then now else last_active_time w)"
  by (simp add: dec_requests_def Let_def max_def)

lemma dec_requests_role: "current_role (dec_requests now w) = current_role w"
  by (simp add: dec_requests_def Let_def)

lemma inc_requests_role: "current_role (inc_requests w) = current_role w"
  by (simp add: inc_requests_def)

text \<open>
  C8, as the code has it. \<^verbatim>\<open>dec_requests\<close> lowers the counter by one, not below zero, and
  writes the clock reading into \<^verbatim>\<open>last_active_time\<close> exactly when the counter is zero
  after the call: when it was 1, and also when it was 0 already. \<^verbatim>\<open>inc_requests\<close> does
  not write the field. \<^verbatim>\<open>get_idle_duration\<close> is 0 while the counter is positive and the
  time since \<^verbatim>\<open>last_active_time\<close> otherwise.
\<close>

theorem release_idle_stamp:
  "active_requests (dec_requests now w) = max 0 (active_requests w - 1)
   \<and> last_active_time (dec_requests now w)
       = (if active_requests (dec_requests now w) = 0 then now else last_active_time w)
   \<and> (active_requests (dec_requests now w) = 0 \<longleftrightarrow> active_requests w \<le> 1)
   \<and> last_active_time (inc_requests w) = last_active_time w
   \<and> get_idle_duration now w
       = (if active_requests w > 0 then 0 else now - last_active_time w)"
  by (simp add: dec_requests_def inc_requests_def get_idle_duration_def Let_def max_def)

text \<open>
  C8 as stated fails: a release on a worker whose counter is 0 (the floor case) moves
  \<^verbatim>\<open>last_active_time\<close> from 0 to 5 although the counter did not go from 1 to 0. (In
  the runs of the router every release follows an accept on the same worker, see
  \<open>release_finds_busy_worker\<close> below, so there the two readings agree.)
\<close>

theorem release_at_zero_restamps:
  "active_requests (Worker_init 1 (WORKER_URLS ! 0) 0) = 0
   \<and> active_requests (dec_requests 5 (Worker_init 1 (WORKER_URLS ! 0) 0)) = 0
   \<and> last_active_time (Worker_init 1 (WORKER_URLS ! 0) 0) = 0
   \<and> last_active_time (dec_requests 5 (Worker_init 1 (WORKER_URLS ! 0) 0)) = 5"
  by (simp add: dec_requests_def Worker_init_def Let_def)

section \<open>Classification\<close>

lemma estimate_token_count_sum:
  "estimate_token_count msgs
     = int (sum_list (map (\<lambda>m. length (py_str (case m ''content'' of None \<Rightarrow> Json_text []
                                                                    | Some c \<Rightarrow> c))) msgs))
       div 4"
proof (cases msgs)
  case Nil
  then show ?thesis by (simp add: estimate_token_count_def)
next
  case (Cons m ms)
  have "length (concat (map (\<lambda>m. py_str (case m ''content'' of None \<Rightarrow> Json_text []
                                                               | Some c \<Rightarrow> c)) msgs))
      = sum_list (map (\<lambda>m. length (py_str (case m ''content'' of None \<Rightarrow> Json_text []
                                                                    | Some c \<Rightarrow> c))) msgs)"
    by (simp add: length_concat comp_def)
  with Cons show ?thesis by (simp add: estimate_token_count_def Let_def)
qed

lemma task_type_of_short_body: "task_type_of short_body = SHORT"
  by (simp add: task_type_of_def short_body_def estimate_token_count_def STATIC_THRESHOLD_def)

lemma task_type_of_long_body: "task_type_of long_body = LONG"
  by (simp add: task_type_of_def long_body_def estimate_token_count_def STATIC_THRESHOLD_def)

section \<open>Placement\<close>

lemma min_by_mem: "min_by key b xs \<in> set (b # xs)"
  by (induction xs arbitrary: b) auto

lemma min_by_least: "x \<in> set (b # xs) \<Longrightarrow> key (min_by key b xs) \<le> key x"
proof (induction xs arbitrary: b x)
  case Nil
  then show ?case by simp
next
  case (Cons y ys)
  let ?b = "if key y < key b then y else b"
  have unroll: "min_by key b (y # ys) = min_by key ?b ys" by simp
  have best: "key (min_by key ?b ys) \<le> key ?b"
    using Cons.IH [of ?b ?b] by simp
  show ?case
  proof (cases "x \<in> set (?b # ys)")
    case True
    then show ?thesis using Cons.IH [of x ?b] unroll by simp
  next
    case False
    with Cons.prems have "key ?b \<le> key x" by (auto split: if_splits)
    with best unroll show ?thesis by simp
  qed
qed

lemma min_by_first:
  fixes b :: nat
  assumes "sorted_wrt (<) (b # xs)" and "x \<in> set (b # xs)"
    and "key x = key (min_by key b xs)"
  shows "min_by key b xs \<le> x"
  using assms
proof (induction xs arbitrary: b x)
  case Nil
  then show ?case by simp
next
  case (Cons y ys)
  let ?b = "if key y < key b then y else b"
  have unroll: "min_by key b (y # ys) = min_by key ?b ys" by simp
  have sorted': "sorted_wrt (<) (?b # ys)"
    using Cons.prems(1) by auto
  have best: "key (min_by key ?b ys) \<le> key ?b"
    using min_by_least [of ?b ?b ys key] by simp
  show ?case
  proof (cases "x \<in> set (?b # ys)")
    case True
    then show ?thesis using Cons.IH [OF sorted' True] Cons.prems(3) unroll by simp
  next
    case False
    show ?thesis
    proof (cases "key y < key b")
      case True
      with False Cons.prems(2) have "x = b" by auto
      with True best Cons.prems(3) unroll show ?thesis by simp
    next
      case no: False
      with False Cons.prems(2) have xy: "x = y" by auto
      from no best Cons.prems(3) unroll xy have "key b = key (min_by key b ys)"
        by simp
      then have "min_by key b ys \<le> b"
        using Cons.IH [of b b] sorted' no by simp
      moreover have "b < y" using Cons.prems(1) by simp
      ultimately show ?thesis using xy unroll no by simp
    qed
  qed
qed

lemma home_candidates_sorted: "sorted_wrt (<) (home_candidates s task_type)"
  by (simp add: home_candidates_def sorted_wrt_filter)

lemma home_candidates_iff:
  "i \<in> set (home_candidates s task_type) \<longleftrightarrow>
     i < length (workers s) \<and> current_role (workers s ! i) = task_type \<and> can_accept (workers s ! i)"
  by (auto simp: home_candidates_def)

lemma try_get_worker_home:
  assumes "home_candidates s task_type = c # cs"
  shows "try_get_worker now s task_type = Some (min_by (\<lambda>i. active_requests (workers s ! i)) c cs)"
  using assms by (simp add: try_get_worker_def home_candidates_def Let_def)

lemma try_get_worker_steal:
  assumes "home_candidates s task_type = []"
  shows "try_get_worker now s task_type =
     (if task_type = LONG then
        find (\<lambda>i. current_role (workers s ! i) = SHORT \<and> can_accept (workers s ! i)
                    \<and> queue_short s = []
                    \<and> get_idle_duration now (workers s ! i) > RASP_STEAL_COOLDOWN)
          [0..<length (workers s)]
      else None)"
  using assms by (simp add: try_get_worker_def home_candidates_def Let_def)

lemma try_get_worker_in_range:
  assumes "try_get_worker now s task_type = Some j"
  shows "j < length (workers s)"
proof (cases "home_candidates s task_type")
  case Nil
  with assms show ?thesis
    by (auto simp: try_get_worker_steal find_Some_iff split: if_splits)
next
  case (Cons c cs)
  have "min_by (\<lambda>i. active_requests (workers s ! i)) c cs \<in> set (home_candidates s task_type)"
    using min_by_mem [of "\<lambda>i. active_requests (workers s ! i)" c cs] Cons by simp
  with assms try_get_worker_home [OF Cons, of now] show ?thesis
    by (simp add: home_candidates_iff)
qed

lemmas eval_defs =
  System_init_def Scheduler_init_def Worker_init_def WORKER_URLS_def enumerate_eq_zip
  chat_completions_def try_get_worker_def can_accept_def get_idle_duration_def
  WORKER_CONCURRENCY_LIMIT_def RASP_STEAL_COOLDOWN_def process_request_begin_def
  process_request_end_def run_task_end_def update_worker_def inc_requests_def
  dec_requests_def dispatch_queue_def run_qhap_loop_def get_partition_status_def
  set_role_def HAP_COOLDOWN_def HAP_HIGH_WATERMARK_def HAP_LOW_WATERMARK_def roles_def
  task_type_of_short_body task_type_of_long_body Let_def

text \<open>
  C5. When some worker of the requested role has room, \<^verbatim>\<open>try_get_worker\<close> returns a worker
  of that role with room whose counter is the least among them, and of those with the
  least counter the earliest in the order of \<^verbatim>\<open>self.workers\<close>.
\<close>

theorem home_first:
  assumes "i < length (workers s)" and "current_role (workers s ! i) = task_type"
    and "can_accept (workers s ! i)"
  shows "\<exists>j. try_get_worker now s task_type = Some j \<and> j < length (workers s)
      \<and> current_role (workers s ! j) = task_type \<and> can_accept (workers s ! j)
      \<and> (\<forall>k < length (workers s).
            current_role (workers s ! k) = task_type \<and> can_accept (workers s ! k) \<longrightarrow>
              active_requests (workers s ! j) \<le> active_requests (workers s ! k)
              \<and> (active_requests (workers s ! k) = active_requests (workers s ! j) \<longrightarrow> j \<le> k))"
proof -
  from assms have "i \<in> set (home_candidates s task_type)"
    by (simp add: home_candidates_iff)
  then obtain c cs where cands: "home_candidates s task_type = c # cs"
    by (cases "home_candidates s task_type") auto
  let ?key = "\<lambda>i. active_requests (workers s ! i)"
  let ?j = "min_by ?key c cs"
  have res: "try_get_worker now s task_type = Some ?j"
    by (rule try_get_worker_home [OF cands])
  have mem: "?j \<in> set (home_candidates s task_type)"
    using min_by_mem [of ?key c cs] cands by simp
  have sorted: "sorted_wrt (<) (c # cs)"
    using home_candidates_sorted [of s task_type] cands by simp
  have least: "?key ?j \<le> ?key k \<and> (?key k = ?key ?j \<longrightarrow> ?j \<le> k)"
    if "k < length (workers s)" "current_role (workers s ! k) = task_type"
      "can_accept (workers s ! k)" for k
  proof -
    from that have k: "k \<in> set (c # cs)"
      using cands home_candidates_iff [of k s task_type] by simp
    show ?thesis
      using min_by_least [OF k, of ?key] min_by_first [OF sorted k, of ?key] by blast
  qed
  from res mem least show ?thesis
    unfolding home_candidates_iff by blast
qed

text \<open>
  C4. A worker returned by \<^verbatim>\<open>try_get_worker\<close> has room, and its role differs from the
  requested class only if the class is LONG, the SHORT queue is empty and the worker has
  been idle for more than the steal cooldown (2 seconds). So a SHORT request never gets
  a LONG worker, and with a non-empty SHORT queue, or an idle time of at most 2 seconds,
  a LONG request does not get that SHORT worker.
\<close>

theorem steal_gate:
  assumes "try_get_worker now s task_type = Some j"
  shows "j < length (workers s) \<and> can_accept (workers s ! j)
      \<and> (current_role (workers s ! j) \<noteq> task_type \<longrightarrow>
            task_type = LONG \<and> current_role (workers s ! j) = SHORT \<and> queue_short s = []
            \<and> get_idle_duration now (workers s ! j) > RASP_STEAL_COOLDOWN)
      \<and> (task_type = SHORT \<longrightarrow> current_role (workers s ! j) = SHORT)
      \<and> (queue_short s \<noteq> [] \<longrightarrow> current_role (workers s ! j) = task_type)
      \<and> (get_idle_duration now (workers s ! j) \<le> 2 \<longrightarrow> current_role (workers s ! j) = task_type)"
proof (cases "home_candidates s task_type")
  case Nil
  with assms have found: "task_type = LONG"
    "find (\<lambda>i. current_role (workers s ! i) = SHORT \<and> can_accept (workers s ! i)
                    \<and> queue_short s = []
                    \<and> get_idle_duration now (workers s ! i) > RASP_STEAL_COOLDOWN)
          [0..<length (workers s)] = Some j"
    by (auto simp: try_get_worker_steal split: if_splits)
  from found(2) have "j < length (workers s) \<and> current_role (workers s ! j) = SHORT
      \<and> can_accept (workers s ! j) \<and> queue_short s = []
      \<and> get_idle_duration now (workers s ! j) > RASP_STEAL_COOLDOWN"
    by (auto simp: find_Some_iff)
  with found(1) show ?thesis by (simp add: RASP_STEAL_COOLDOWN_def)
next
  case (Cons c cs)
  have "min_by (\<lambda>i. active_requests (workers s ! i)) c cs \<in> set (home_candidates s task_type)"
    using min_by_mem [of "\<lambda>i. active_requests (workers s ! i)" c cs] Cons by simp
  moreover have "try_get_worker now s task_type
      = Some (min_by (\<lambda>i. active_requests (workers s ! i)) c cs)"
    by (rule try_get_worker_home [OF Cons])
  ultimately have "j \<in> set (home_candidates s task_type)"
    using assms by simp
  then show ?thesis
    by (cases task_type) (auto simp: home_candidates_iff)
qed

lemma three_short_workers:
  "map active_requests (workers (scheduler three_short_system)) = [0, 0, 2, 1]"
  "map current_role (workers (scheduler three_short_system)) = [LONG, LONG, SHORT, SHORT]"
  by (simp_all add: three_short_system_def eval_defs eval_nat_numeral)

lemma three_short_placement: "try_get_worker 1 (scheduler three_short_system) SHORT = Some 3"
  by (simp add: three_short_system_def eval_defs eval_nat_numeral)

theorem home_first_witness:
  "try_get_worker 1 (scheduler three_short_system) SHORT = Some 3
   \<and> current_role (workers (scheduler three_short_system) ! 2) = SHORT
   \<and> can_accept (workers (scheduler three_short_system) ! 2)
   \<and> current_role (workers (scheduler three_short_system) ! 3) = SHORT
   \<and> active_requests (workers (scheduler three_short_system) ! 3)
       \<le> active_requests (workers (scheduler three_short_system) ! 2)"
proof -
  let ?s = "scheduler three_short_system"
  have len: "length (workers ?s) = 4"
    by (simp add: three_short_system_def eval_defs eval_nat_numeral)
  have act: "active_requests (workers ?s ! 2) = 2" "active_requests (workers ?s ! 3) = 1"
    by (simp_all add: three_short_system_def eval_defs eval_nat_numeral)
  have role: "current_role (workers ?s ! 2) = SHORT" "current_role (workers ?s ! 3) = SHORT"
    by (simp_all add: three_short_system_def eval_defs eval_nat_numeral)
  have room: "can_accept (workers ?s ! 2)"
    using act by (simp add: can_accept_def WORKER_CONCURRENCY_LIMIT_def)
  have two: "2 < length (workers ?s)" using len by simp
  from home_first [OF two role(1) room, of 1] three_short_placement
  have "active_requests (workers ?s ! 3) \<le> active_requests (workers ?s ! 2)"
    using two role(1) room by auto
  with three_short_placement role room show ?thesis by simp
qed

lemma long_full_steal: "try_get_worker 3 (scheduler long_full_system) LONG = Some 2"
  by (simp add: long_full_system_def eval_defs eval_nat_numeral)

lemma long_full_role: "current_role (workers (scheduler long_full_system) ! 2) = SHORT"
  by (simp add: long_full_system_def eval_defs eval_nat_numeral)

theorem steal_gate_witness:
  "try_get_worker 3 (scheduler long_full_system) LONG = Some 2
   \<and> current_role (workers (scheduler long_full_system) ! 2) = SHORT
   \<and> queue_short (scheduler long_full_system) = []
   \<and> get_idle_duration 3 (workers (scheduler long_full_system) ! 2) > RASP_STEAL_COOLDOWN"
  using steal_gate [OF long_full_steal] long_full_steal long_full_role by simp

section \<open>Dispatch of the wait queues\<close>

lemma task_entries_append: "task_entries (xs @ ys) = task_entries xs @ task_entries ys"
  by (induction xs rule: task_entries.induct) auto

lemma drain_short_prefix:
  "\<exists>k. fst (drain_short now s created) = s\<lparr>queue_short := drop k (queue_short s)\<rparr>
      \<and> task_entries (snd (drain_short now s created))
           = task_entries created @ take k (queue_short s)
      \<and> length (snd (drain_short now s created)) = length created + k
      \<and> k \<le> length (queue_short s)
      \<and> (queue_short (fst (drain_short now s created)) = []
           \<or> try_get_worker now (fst (drain_short now s created)) SHORT = None)"
proof (induction now s created rule: drain_short.induct)
  case (1 now s created)
  show ?case
  proof (cases "queue_short s")
    case Nil
    then have "fst (drain_short now s created) = s\<lparr>queue_short := drop 0 (queue_short s)\<rparr>
        \<and> task_entries (snd (drain_short now s created)) = task_entries created @ take 0 (queue_short s)
        \<and> length (snd (drain_short now s created)) = length created + 0
        \<and> 0 \<le> length (queue_short s)
        \<and> (queue_short (fst (drain_short now s created)) = []
             \<or> try_get_worker now (fst (drain_short now s created)) SHORT = None)"
      by simp
    then show ?thesis by blast
  next
    case (Cons p ps)
    show ?thesis
    proof (cases "try_get_worker now s SHORT")
      case None
      with Cons have "fst (drain_short now s created) = s\<lparr>queue_short := drop 0 (queue_short s)\<rparr>
        \<and> task_entries (snd (drain_short now s created)) = task_entries created @ take 0 (queue_short s)
        \<and> length (snd (drain_short now s created)) = length created + 0
        \<and> 0 \<le> length (queue_short s)
        \<and> (queue_short (fst (drain_short now s created)) = []
             \<or> try_get_worker now (fst (drain_short now s created)) SHORT = None)"
        by simp
      then show ?thesis by blast
    next
      case (Some worker)
      let ?s1 = "s\<lparr>queue_short := ps\<rparr>"
      let ?c1 = "created @ [Run_task worker p]"
      have unroll: "drain_short now s created = drain_short now ?s1 ?c1"
        using Cons Some by simp
      from "1.IH" [OF Cons Some] obtain k where
        k: "fst (drain_short now ?s1 ?c1) = ?s1\<lparr>queue_short := drop k (queue_short ?s1)\<rparr>"
          "task_entries (snd (drain_short now ?s1 ?c1)) = task_entries ?c1 @ take k (queue_short ?s1)"
          "length (snd (drain_short now ?s1 ?c1)) = length ?c1 + k"
          "k \<le> length (queue_short ?s1)"
          "queue_short (fst (drain_short now ?s1 ?c1)) = []
             \<or> try_get_worker now (fst (drain_short now ?s1 ?c1)) SHORT = None"
        by blast
      have "fst (drain_short now s created) = s\<lparr>queue_short := drop (Suc k) (queue_short s)\<rparr>
        \<and> task_entries (snd (drain_short now s created))
             = task_entries created @ take (Suc k) (queue_short s)
        \<and> length (snd (drain_short now s created)) = length created + Suc k
        \<and> Suc k \<le> length (queue_short s)
        \<and> (queue_short (fst (drain_short now s created)) = []
             \<or> try_get_worker now (fst (drain_short now s created)) SHORT = None)"
        using k Cons unfolding unroll by (simp add: task_entries_append)
      then show ?thesis by blast
    qed
  qed
qed

lemma drain_long_prefix:
  "\<exists>k. fst (drain_long now s created) = s\<lparr>queue_long := drop k (queue_long s)\<rparr>
      \<and> task_entries (snd (drain_long now s created))
           = task_entries created @ take k (queue_long s)
      \<and> length (snd (drain_long now s created)) = length created + k
      \<and> k \<le> length (queue_long s)
      \<and> (queue_long (fst (drain_long now s created)) = []
           \<or> try_get_worker now (fst (drain_long now s created)) LONG = None)"
proof (induction now s created rule: drain_long.induct)
  case (1 now s created)
  show ?case
  proof (cases "queue_long s")
    case Nil
    then have "fst (drain_long now s created) = s\<lparr>queue_long := drop 0 (queue_long s)\<rparr>
        \<and> task_entries (snd (drain_long now s created)) = task_entries created @ take 0 (queue_long s)
        \<and> length (snd (drain_long now s created)) = length created + 0
        \<and> 0 \<le> length (queue_long s)
        \<and> (queue_long (fst (drain_long now s created)) = []
             \<or> try_get_worker now (fst (drain_long now s created)) LONG = None)"
      by simp
    then show ?thesis by blast
  next
    case (Cons p ps)
    show ?thesis
    proof (cases "try_get_worker now s LONG")
      case None
      with Cons have "fst (drain_long now s created) = s\<lparr>queue_long := drop 0 (queue_long s)\<rparr>
        \<and> task_entries (snd (drain_long now s created)) = task_entries created @ take 0 (queue_long s)
        \<and> length (snd (drain_long now s created)) = length created + 0
        \<and> 0 \<le> length (queue_long s)
        \<and> (queue_long (fst (drain_long now s created)) = []
             \<or> try_get_worker now (fst (drain_long now s created)) LONG = None)"
        by simp
      then show ?thesis by blast
    next
      case (Some worker)
      let ?s1 = "s\<lparr>queue_long := ps\<rparr>"
      let ?c1 = "created @ [Run_task worker p]"
      have unroll: "drain_long now s created = drain_long now ?s1 ?c1"
        using Cons Some by simp
      from "1.IH" [OF Cons Some] obtain k where
        k: "fst (drain_long now ?s1 ?c1) = ?s1\<lparr>queue_long := drop k (queue_long ?s1)\<rparr>"
          "task_entries (snd (drain_long now ?s1 ?c1)) = task_entries ?c1 @ take k (queue_long ?s1)"
          "length (snd (drain_long now ?s1 ?c1)) = length ?c1 + k"
          "k \<le> length (queue_long ?s1)"
          "queue_long (fst (drain_long now ?s1 ?c1)) = []
             \<or> try_get_worker now (fst (drain_long now ?s1 ?c1)) LONG = None"
        by blast
      have "fst (drain_long now s created) = s\<lparr>queue_long := drop (Suc k) (queue_long s)\<rparr>
        \<and> task_entries (snd (drain_long now s created))
             = task_entries created @ take (Suc k) (queue_long s)
        \<and> length (snd (drain_long now s created)) = length created + Suc k
        \<and> Suc k \<le> length (queue_long s)
        \<and> (queue_long (fst (drain_long now s created)) = []
             \<or> try_get_worker now (fst (drain_long now s created)) LONG = None)"
        using k Cons unfolding unroll by (simp add: task_entries_append)
      then show ?thesis by blast
    qed
  qed
qed

lemma dispatch_queue_shape:
  "\<exists>ks kl.
     fst (dispatch_queue now s)
       = s\<lparr>queue_short := drop ks (queue_short s), queue_long := drop kl (queue_long s)\<rparr>
   \<and> task_entries (snd (dispatch_queue now s)) = take ks (queue_short s) @ take kl (queue_long s)
   \<and> length (snd (dispatch_queue now s)) = ks + kl
   \<and> (drop ks (queue_short s) = []
        \<or> try_get_worker now (s\<lparr>queue_short := drop ks (queue_short s)\<rparr>) SHORT = None)
   \<and> (drop kl (queue_long s) = []
        \<or> try_get_worker now (fst (dispatch_queue now s)) LONG = None)"
proof -
  let ?r1 = "drain_short now s []"
  obtain ks where ks:
    "fst ?r1 = s\<lparr>queue_short := drop ks (queue_short s)\<rparr>"
    "task_entries (snd ?r1) = task_entries [] @ take ks (queue_short s)"
    "length (snd ?r1) = length ([] :: task list) + ks"
    "queue_short (fst ?r1) = [] \<or> try_get_worker now (fst ?r1) SHORT = None"
    using drain_short_prefix [of now s "[]"] by blast
  let ?r2 = "drain_long now (fst ?r1) (snd ?r1)"
  obtain kl where kl:
    "fst ?r2 = (fst ?r1)\<lparr>queue_long := drop kl (queue_long (fst ?r1))\<rparr>"
    "task_entries (snd ?r2) = task_entries (snd ?r1) @ take kl (queue_long (fst ?r1))"
    "length (snd ?r2) = length (snd ?r1) + kl"
    "queue_long (fst ?r2) = [] \<or> try_get_worker now (fst ?r2) LONG = None"
    using drain_long_prefix [of now "fst ?r1" "snd ?r1"] by blast
  have eq: "dispatch_queue now s = ?r2"
    by (simp add: dispatch_queue_def split_beta)
  have "fst (dispatch_queue now s)
       = s\<lparr>queue_short := drop ks (queue_short s), queue_long := drop kl (queue_long s)\<rparr>
   \<and> task_entries (snd (dispatch_queue now s)) = take ks (queue_short s) @ take kl (queue_long s)
   \<and> length (snd (dispatch_queue now s)) = ks + kl
   \<and> (drop ks (queue_short s) = []
        \<or> try_get_worker now (s\<lparr>queue_short := drop ks (queue_short s)\<rparr>) SHORT = None)
   \<and> (drop kl (queue_long s) = []
        \<or> try_get_worker now (fst (dispatch_queue now s)) LONG = None)"
    using ks kl unfolding eq by auto
  then show ?thesis by blast
qed

lemma dispatch_queue_workers: "workers (fst (dispatch_queue now s)) = workers s"
  using dispatch_queue_shape [of now s] by auto

lemma dispatch_queue_rebalance_time:
  "last_rebalance_time (fst (dispatch_queue now s)) = last_rebalance_time s"
  using dispatch_queue_shape [of now s] by auto

section \<open>Steps of the system\<close>

lemma run_append: "run (es @ es') sys = run es' (run es sys)"
  by (induction es arbitrary: sys) auto

lemma map_update_same:
  assumes "\<And>x. g (f x) = g x"
  shows "map g (xs[i := f (xs ! i)]) = map g xs"
proof (rule nth_equalityI)
  show "length (map g (xs[i := f (xs ! i)])) = length (map g xs)" by simp
next
  fix j
  assume "j < length (map g (xs[i := f (xs ! i)]))"
  then have j: "j < length xs" by simp
  show "map g (xs[i := f (xs ! i)]) ! j = map g xs ! j"
  proof (cases "j = i")
    case True
    with j show ?thesis by (simp add: assms)
  next
    case False
    with j show ?thesis by simp
  qed
qed

lemma update_worker_roles:
  assumes "\<And>w. current_role (f w) = current_role w"
  shows "map current_role (workers (update_worker i f s)) = map current_role (workers s)"
  unfolding update_worker_def using map_update_same [of current_role f, OF assms] by simp

lemma update_worker_rest:
  "queue_long (update_worker i f s) = queue_long s"
  "queue_short (update_worker i f s) = queue_short s"
  "last_rebalance_time (update_worker i f s) = last_rebalance_time s"
  "length (workers (update_worker i f s)) = length (workers s)"
  by (simp_all add: update_worker_def)

lemma process_request_begin_roles: "roles (process_request_begin w fut sys) = roles sys"
  by (simp add: roles_def process_request_begin_def update_worker_roles inc_requests_role)

lemma process_request_begin_rebalance_time:
  "last_rebalance_time (scheduler (process_request_begin w fut sys))
     = last_rebalance_time (scheduler sys)"
  by (simp add: process_request_begin_def update_worker_rest)

lemma process_request_end_roles: "roles (snd (process_request_end now w outcome sys)) = roles sys"
  by (simp add: roles_def process_request_end_def Let_def update_worker_roles dec_requests_role)

lemma process_request_end_rebalance_time:
  "last_rebalance_time (scheduler (snd (process_request_end now w outcome sys)))
     = last_rebalance_time (scheduler sys)"
  by (simp add: process_request_end_def Let_def update_worker_rest)

lemma run_task_end_scheduler:
  "scheduler (run_task_end now w fut outcome sys)
     = scheduler (snd (process_request_end now w outcome sys))"
  by (cases outcome) (simp_all add: run_task_end_def process_request_end_def Let_def)

lemma run_task_end_roles: "roles (run_task_end now w fut outcome sys) = roles sys"
  using process_request_end_roles [of now w outcome sys]
  by (simp add: roles_def run_task_end_scheduler)

lemma chat_completions_roles: "roles (chat_completions now body sys) = roles sys"
  by (simp add: chat_completions_def Let_def process_request_begin_roles split: option.splits)
    (simp add: roles_def)

lemma chat_completions_rebalance_time:
  "last_rebalance_time (scheduler (chat_completions now body sys))
     = last_rebalance_time (scheduler sys)"
  by (simp add: chat_completions_def Let_def process_request_begin_rebalance_time
      split: option.splits)

lemma step_roles:
  assumes "\<And>now. e \<noteq> Tick now"
  shows "roles (step e sys) = roles sys"
proof (cases e)
  case (Arrive body now)
  then show ?thesis by (simp add: chat_completions_roles)
next
  case (Run_next now)
  show ?thesis
  proof (cases "ready sys")
    case Nil
    with Run_next show ?thesis by simp
  next
    case (Cons t ts)
    show ?thesis
    proof (cases t)
      case (Run_task worker p)
      with Cons Run_next show ?thesis
        using process_request_begin_roles [of worker "Some (fst p)" "sys\<lparr>ready := ts\<rparr>"]
        by (simp add: roles_def)
    next
      case Dispatch_queue
      with Cons Run_next show ?thesis
        using dispatch_queue_workers [of now "scheduler sys"]
        by (simp add: roles_def split_beta)
    qed
  qed
next
  case (Send_done k outcome now)
  show ?thesis
  proof (cases "k < length (sending sys)")
    case False
    with Send_done show ?thesis by simp
  next
    case True
    let ?sys1 = "sys\<lparr>sending := take k (sending sys) @ drop (Suc k) (sending sys)\<rparr>"
    obtain w fut where entry: "sending sys ! k = (w, fut)" by (cases "sending sys ! k")
    have "roles ?sys1 = roles sys" by (simp add: roles_def)
    with True Send_done entry show ?thesis
      using process_request_end_roles [of now w outcome ?sys1]
        run_task_end_roles [of now w _ outcome ?sys1]
      by (cases fut) (simp_all add: Let_def)
  qed
next
  case (Tick now)
  with assms show ?thesis by blast
qed

lemma step_rebalance_time:
  assumes "\<And>now. e \<noteq> Tick now"
  shows "last_rebalance_time (scheduler (step e sys)) = last_rebalance_time (scheduler sys)"
proof (cases e)
  case (Arrive body now)
  then show ?thesis by (simp add: chat_completions_rebalance_time)
next
  case (Run_next now)
  show ?thesis
  proof (cases "ready sys")
    case Nil
    with Run_next show ?thesis by simp
  next
    case (Cons t ts)
    show ?thesis
    proof (cases t)
      case (Run_task worker p)
      with Cons Run_next show ?thesis
        by (simp add: process_request_begin_rebalance_time)
    next
      case Dispatch_queue
      with Cons Run_next show ?thesis
        using dispatch_queue_rebalance_time [of now "scheduler sys"]
        by (simp add: split_beta)
    qed
  qed
next
  case (Send_done k outcome now)
  show ?thesis
  proof (cases "k < length (sending sys)")
    case False
    with Send_done show ?thesis by simp
  next
    case True
    let ?sys1 = "sys\<lparr>sending := take k (sending sys) @ drop (Suc k) (sending sys)\<rparr>"
    obtain w fut where entry: "sending sys ! k = (w, fut)" by (cases "sending sys ! k")
    from True Send_done entry show ?thesis
      using process_request_end_rebalance_time [of now w outcome ?sys1]
      by (cases fut) (simp_all add: Let_def run_task_end_scheduler)
  qed
next
  case (Tick now)
  with assms show ?thesis by blast
qed

lemma mixed_system_queues:
  "queue_short (scheduler mixed_system) = [(0, short_body), (1, short_body)]"
  "queue_long (scheduler mixed_system) = [(2, long_body), (3, long_body)]"
  by (simp_all add: mixed_system_def mixed_trace_def run_append eval_defs eval_nat_numeral)

lemma mixed_system_dispatch:
  "snd (dispatch_queue 2 (scheduler mixed_system))
     = [Run_task 2 (0, short_body), Run_task 2 (1, short_body),
        Run_task 0 (2, long_body), Run_task 0 (3, long_body)]"
  by (simp add: mixed_system_def mixed_trace_def run_append eval_defs eval_nat_numeral)

lemma queue_short_same: "queue_short s = q \<Longrightarrow> s\<lparr>queue_short := q\<rparr> = s"
  by simp

lemma queue_long_same: "queue_long s = q \<Longrightarrow> s\<lparr>queue_long := q\<rparr> = s"
  by simp

lemma drain_short_served:
  "\<exists>k ws. k \<le> length (queue_short s) \<and> length ws = k
     \<and> drain_short now s created
         = (s\<lparr>queue_short := drop k (queue_short s)\<rparr>,
            created @ map2 Run_task ws (take k (queue_short s)))
     \<and> (\<forall>i<k. try_get_worker now (s\<lparr>queue_short := drop i (queue_short s)\<rparr>) SHORT
                  = Some (ws ! i))
     \<and> (k = length (queue_short s)
          \<or> try_get_worker now (s\<lparr>queue_short := drop k (queue_short s)\<rparr>) SHORT = None)"
proof (induction now s created rule: drain_short.induct)
  case (1 now s created)
  show ?case
  proof (cases "queue_short s")
    case Nil
    then have "0 \<le> length (queue_short s) \<and> length ([] :: nat list) = 0
       \<and> drain_short now s created
           = (s\<lparr>queue_short := drop 0 (queue_short s)\<rparr>,
              created @ map2 Run_task [] (take 0 (queue_short s)))
       \<and> (\<forall>i<0. try_get_worker now (s\<lparr>queue_short := drop i (queue_short s)\<rparr>) SHORT
                    = Some ([] ! i))
       \<and> (0 = length (queue_short s)
            \<or> try_get_worker now (s\<lparr>queue_short := drop 0 (queue_short s)\<rparr>) SHORT = None)"
      by (simp add: queue_short_same)
    then show ?thesis by blast
  next
    case (Cons p ps)
    show ?thesis
    proof (cases "try_get_worker now s SHORT")
      case None
      with Cons have "0 \<le> length (queue_short s) \<and> length ([] :: nat list) = 0
         \<and> drain_short now s created
             = (s\<lparr>queue_short := drop 0 (queue_short s)\<rparr>,
                created @ map2 Run_task [] (take 0 (queue_short s)))
         \<and> (\<forall>i<0. try_get_worker now (s\<lparr>queue_short := drop i (queue_short s)\<rparr>) SHORT
                      = Some ([] ! i))
         \<and> (0 = length (queue_short s)
              \<or> try_get_worker now (s\<lparr>queue_short := drop 0 (queue_short s)\<rparr>) SHORT = None)"
        by (simp add: queue_short_same)
      then show ?thesis by blast
    next
      case (Some worker)
      let ?s1 = "s\<lparr>queue_short := ps\<rparr>"
      let ?c1 = "created @ [Run_task worker p]"
      have unroll: "drain_short now s created = drain_short now ?s1 ?c1"
        using Cons Some by simp
      from "1.IH" [OF Cons Some] obtain k ws where
        k: "k \<le> length ps" "length ws = k"
          "drain_short now ?s1 ?c1
             = (s\<lparr>queue_short := drop k ps\<rparr>, ?c1 @ map2 Run_task ws (take k ps))"
          "\<forall>i<k. try_get_worker now (s\<lparr>queue_short := drop i ps\<rparr>) SHORT = Some (ws ! i)"
          "k = length ps \<or> try_get_worker now (s\<lparr>queue_short := drop k ps\<rparr>) SHORT = None"
        by auto
      have first: "try_get_worker now (s\<lparr>queue_short := drop 0 (queue_short s)\<rparr>) SHORT
          = Some ((worker # ws) ! 0)"
        using Some by (simp add: queue_short_same)
      have each: "try_get_worker now (s\<lparr>queue_short := drop i (queue_short s)\<rparr>) SHORT
          = Some ((worker # ws) ! i)" if "i < Suc k" for i
      proof (cases i)
        case 0
        with first show ?thesis by simp
      next
        case (Suc j)
        with that k(4) Cons show ?thesis by simp
      qed
      have "Suc k \<le> length (queue_short s) \<and> length (worker # ws) = Suc k
         \<and> drain_short now s created
             = (s\<lparr>queue_short := drop (Suc k) (queue_short s)\<rparr>,
                created @ map2 Run_task (worker # ws) (take (Suc k) (queue_short s)))
         \<and> (\<forall>i<Suc k. try_get_worker now (s\<lparr>queue_short := drop i (queue_short s)\<rparr>) SHORT
                          = Some ((worker # ws) ! i))
         \<and> (Suc k = length (queue_short s)
              \<or> try_get_worker now (s\<lparr>queue_short := drop (Suc k) (queue_short s)\<rparr>) SHORT = None)"
        using k(1,2,3,5) each Cons unfolding unroll by simp
      then show ?thesis by blast
    qed
  qed
qed

lemma drain_long_served:
  "\<exists>k ws. k \<le> length (queue_long s) \<and> length ws = k
     \<and> drain_long now s created
         = (s\<lparr>queue_long := drop k (queue_long s)\<rparr>,
            created @ map2 Run_task ws (take k (queue_long s)))
     \<and> (\<forall>i<k. try_get_worker now (s\<lparr>queue_long := drop i (queue_long s)\<rparr>) LONG
                  = Some (ws ! i))
     \<and> (k = length (queue_long s)
          \<or> try_get_worker now (s\<lparr>queue_long := drop k (queue_long s)\<rparr>) LONG = None)"
proof (induction now s created rule: drain_long.induct)
  case (1 now s created)
  show ?case
  proof (cases "queue_long s")
    case Nil
    then have "0 \<le> length (queue_long s) \<and> length ([] :: nat list) = 0
       \<and> drain_long now s created
           = (s\<lparr>queue_long := drop 0 (queue_long s)\<rparr>,
              created @ map2 Run_task [] (take 0 (queue_long s)))
       \<and> (\<forall>i<0. try_get_worker now (s\<lparr>queue_long := drop i (queue_long s)\<rparr>) LONG
                    = Some ([] ! i))
       \<and> (0 = length (queue_long s)
            \<or> try_get_worker now (s\<lparr>queue_long := drop 0 (queue_long s)\<rparr>) LONG = None)"
      by (simp add: queue_long_same)
    then show ?thesis by blast
  next
    case (Cons p ps)
    show ?thesis
    proof (cases "try_get_worker now s LONG")
      case None
      with Cons have "0 \<le> length (queue_long s) \<and> length ([] :: nat list) = 0
         \<and> drain_long now s created
             = (s\<lparr>queue_long := drop 0 (queue_long s)\<rparr>,
                created @ map2 Run_task [] (take 0 (queue_long s)))
         \<and> (\<forall>i<0. try_get_worker now (s\<lparr>queue_long := drop i (queue_long s)\<rparr>) LONG
                      = Some ([] ! i))
         \<and> (0 = length (queue_long s)
              \<or> try_get_worker now (s\<lparr>queue_long := drop 0 (queue_long s)\<rparr>) LONG = None)"
        by (simp add: queue_long_same)
      then show ?thesis by blast
    next
      case (Some worker)
      let ?s1 = "s\<lparr>queue_long := ps\<rparr>"
      let ?c1 = "created @ [Run_task worker p]"
      have unroll: "drain_long now s created = drain_long now ?s1 ?c1"
        using Cons Some by simp
      from "1.IH" [OF Cons Some] obtain k ws where
        k: "k \<le> length ps" "length ws = k"
          "drain_long now ?s1 ?c1
             = (s\<lparr>queue_long := drop k ps\<rparr>, ?c1 @ map2 Run_task ws (take k ps))"
          "\<forall>i<k. try_get_worker now (s\<lparr>queue_long := drop i ps\<rparr>) LONG = Some (ws ! i)"
          "k = length ps \<or> try_get_worker now (s\<lparr>queue_long := drop k ps\<rparr>) LONG = None"
        by auto
      have first: "try_get_worker now (s\<lparr>queue_long := drop 0 (queue_long s)\<rparr>) LONG
          = Some ((worker # ws) ! 0)"
        using Some by (simp add: queue_long_same)
      have each: "try_get_worker now (s\<lparr>queue_long := drop i (queue_long s)\<rparr>) LONG
          = Some ((worker # ws) ! i)" if "i < Suc k" for i
      proof (cases i)
        case 0
        with first show ?thesis by simp
      next
        case (Suc j)
        with that k(4) Cons show ?thesis by simp
      qed
      have "Suc k \<le> length (queue_long s) \<and> length (worker # ws) = Suc k
         \<and> drain_long now s created
             = (s\<lparr>queue_long := drop (Suc k) (queue_long s)\<rparr>,
                created @ map2 Run_task (worker # ws) (take (Suc k) (queue_long s)))
         \<and> (\<forall>i<Suc k. try_get_worker now (s\<lparr>queue_long := drop i (queue_long s)\<rparr>) LONG
                          = Some ((worker # ws) ! i))
         \<and> (Suc k = length (queue_long s)
              \<or> try_get_worker now (s\<lparr>queue_long := drop (Suc k) (queue_long s)\<rparr>) LONG = None)"
        using k(1,2,3,5) each Cons unfolding unroll by simp
      then show ?thesis by blast
    qed
  qed
qed


text \<open>
  C6. One run of \<^verbatim>\<open>dispatch_queue\<close> first serves the SHORT queue from its head: the
  \<open>i\<close>-th entry is popped, and a task for it and the worker found is created, only
  after \<^verbatim>\<open>try_get_worker(SHORT)\<close> has found a worker with the first \<open>i\<close> entries gone;
  this ends where the queue is empty or \<^verbatim>\<open>try_get_worker(SHORT)\<close> finds nothing. Only
  then the LONG queue is served in the same way. The tasks are created in queue order,
  all SHORT ones before all LONG ones, and what stays queued is the rest of each queue.
\<close>

theorem drain_order:
  "\<exists>ks kl ws_short ws_long.
     ks \<le> length (queue_short s) \<and> kl \<le> length (queue_long s)
   \<and> length ws_short = ks \<and> length ws_long = kl
   \<and> snd (dispatch_queue now s)
       = map2 Run_task ws_short (take ks (queue_short s))
         @ map2 Run_task ws_long (take kl (queue_long s))
   \<and> fst (dispatch_queue now s)
       = s\<lparr>queue_short := drop ks (queue_short s), queue_long := drop kl (queue_long s)\<rparr>
   \<and> (\<forall>i<ks. try_get_worker now (s\<lparr>queue_short := drop i (queue_short s)\<rparr>) SHORT
                 = Some (ws_short ! i))
   \<and> (ks = length (queue_short s)
        \<or> try_get_worker now (s\<lparr>queue_short := drop ks (queue_short s)\<rparr>) SHORT = None)
   \<and> (\<forall>i<kl. try_get_worker now
                   (s\<lparr>queue_short := drop ks (queue_short s),
                      queue_long := drop i (queue_long s)\<rparr>) LONG
                 = Some (ws_long ! i))
   \<and> (kl = length (queue_long s)
        \<or> try_get_worker now
             (s\<lparr>queue_short := drop ks (queue_short s),
                queue_long := drop kl (queue_long s)\<rparr>) LONG = None)"
proof -
  obtain ks wss where ks:
    "ks \<le> length (queue_short s)" "length wss = ks"
    "drain_short now s []
       = (s\<lparr>queue_short := drop ks (queue_short s)\<rparr>,
          [] @ map2 Run_task wss (take ks (queue_short s)))"
    "\<forall>i<ks. try_get_worker now (s\<lparr>queue_short := drop i (queue_short s)\<rparr>) SHORT
               = Some (wss ! i)"
    "ks = length (queue_short s)
       \<or> try_get_worker now (s\<lparr>queue_short := drop ks (queue_short s)\<rparr>) SHORT = None"
    using drain_short_served [of s now "[]"] by blast
  let ?s1 = "s\<lparr>queue_short := drop ks (queue_short s)\<rparr>"
  let ?c1 = "map2 Run_task wss (take ks (queue_short s))"
  obtain kl wsl where kl:
    "kl \<le> length (queue_long ?s1)" "length wsl = kl"
    "drain_long now ?s1 ?c1
       = (?s1\<lparr>queue_long := drop kl (queue_long ?s1)\<rparr>,
          ?c1 @ map2 Run_task wsl (take kl (queue_long ?s1)))"
    "\<forall>i<kl. try_get_worker now (?s1\<lparr>queue_long := drop i (queue_long ?s1)\<rparr>) LONG
               = Some (wsl ! i)"
    "kl = length (queue_long ?s1)
       \<or> try_get_worker now (?s1\<lparr>queue_long := drop kl (queue_long ?s1)\<rparr>) LONG = None"
    using drain_long_served [of ?s1 now ?c1] by blast
  have eq: "dispatch_queue now s = drain_long now ?s1 ?c1"
    using ks(3) by (simp add: dispatch_queue_def)
  have "ks \<le> length (queue_short s) \<and> kl \<le> length (queue_long s)
   \<and> length wss = ks \<and> length wsl = kl
   \<and> snd (dispatch_queue now s)
       = map2 Run_task wss (take ks (queue_short s))
         @ map2 Run_task wsl (take kl (queue_long s))
   \<and> fst (dispatch_queue now s)
       = s\<lparr>queue_short := drop ks (queue_short s), queue_long := drop kl (queue_long s)\<rparr>
   \<and> (\<forall>i<ks. try_get_worker now (s\<lparr>queue_short := drop i (queue_short s)\<rparr>) SHORT
                 = Some (wss ! i))
   \<and> (ks = length (queue_short s)
        \<or> try_get_worker now (s\<lparr>queue_short := drop ks (queue_short s)\<rparr>) SHORT = None)
   \<and> (\<forall>i<kl. try_get_worker now
                   (s\<lparr>queue_short := drop ks (queue_short s),
                      queue_long := drop i (queue_long s)\<rparr>) LONG
                 = Some (wsl ! i))
   \<and> (kl = length (queue_long s)
        \<or> try_get_worker now
             (s\<lparr>queue_short := drop ks (queue_short s),
                queue_long := drop kl (queue_long s)\<rparr>) LONG = None)"
    using ks(1,2,4,5) kl unfolding eq by simp
  then show ?thesis by blast
qed

lemma blocked_system_state:
  "scheduler blocked_system =
     \<lparr>workers = [worker_at 0 LONG 7 0, worker_at 1 LONG 8 0,
                 worker_at 2 SHORT 8 0, worker_at 3 SHORT 8 0],
      queue_long = [(2, long_body), (3, long_body)],
      queue_short = [(0, short_body), (1, short_body)],
      last_rebalance_time = 0\<rparr>"
  by (simp add: blocked_system_def blocked_trace_def run_append worker_at_def eval_defs
      eval_nat_numeral)

lemma blocked_system_short: "try_get_worker 2 (scheduler blocked_system) SHORT = None"
  unfolding blocked_system_state by (simp add: worker_at_def eval_defs)

lemma blocked_system_dispatch:
  "snd (dispatch_queue 2 (scheduler blocked_system))
     = [Run_task 0 (2, long_body), Run_task 0 (3, long_body)]"
  unfolding blocked_system_state by (simp add: worker_at_def eval_defs)

theorem drain_order_witness:
  "try_get_worker 2 (scheduler blocked_system) SHORT = None
   \<and> queue_short (fst (dispatch_queue 2 (scheduler blocked_system)))
       = [(0, short_body), (1, short_body)]
   \<and> snd (dispatch_queue 2 (scheduler blocked_system))
       = [Run_task 0 (2, long_body), Run_task 0 (3, long_body)]
   \<and> snd (dispatch_queue 2 (scheduler mixed_system))
       = [Run_task 2 (0, short_body), Run_task 2 (1, short_body),
          Run_task 0 (2, long_body), Run_task 0 (3, long_body)]"
proof -
  let ?s = "scheduler blocked_system"
  obtain ks where ks:
    "queue_short (fst (dispatch_queue 2 ?s)) = drop ks (queue_short ?s)"
    "\<forall>i<ks. try_get_worker 2 (?s\<lparr>queue_short := drop i (queue_short ?s)\<rparr>) SHORT \<noteq> None"
  proof -
    from drain_order [of ?s 2] obtain ks kl wss wsl where
      a: "fst (dispatch_queue 2 ?s)
            = ?s\<lparr>queue_short := drop ks (queue_short ?s), queue_long := drop kl (queue_long ?s)\<rparr>"
      and b: "\<forall>i<ks. try_get_worker 2 (?s\<lparr>queue_short := drop i (queue_short ?s)\<rparr>) SHORT
                = Some (wss ! i)"
      by blast
    have "queue_short (fst (dispatch_queue 2 ?s)) = drop ks (queue_short ?s)"
      by (simp add: a)
    moreover from b
    have "\<forall>i<ks. try_get_worker 2 (?s\<lparr>queue_short := drop i (queue_short ?s)\<rparr>) SHORT \<noteq> None"
      by simp
    ultimately show ?thesis using that by blast
  qed
  have "ks = 0"
  proof (rule ccontr)
    assume "ks \<noteq> 0"
    then have "0 < ks" by simp
    with ks(2) have "try_get_worker 2 (?s\<lparr>queue_short := drop 0 (queue_short ?s)\<rparr>) SHORT \<noteq> None"
      by blast
    then show False by (simp add: queue_short_same blocked_system_short)
  qed
  with ks(1) have "queue_short (fst (dispatch_queue 2 ?s)) = queue_short ?s" by simp
  also have "\<dots> = [(0, short_body), (1, short_body)]"
    by (simp add: blocked_system_state)
  finally show ?thesis
    using blocked_system_short blocked_system_dispatch mixed_system_dispatch by simp
qed

section \<open>The rebalancer\<close>

lemma partition_total:
  "length (filter (\<lambda>w. current_role w = LONG) ws)
     + length (filter (\<lambda>w. current_role w = SHORT) ws) = length ws"
proof (induction ws)
  case Nil
  then show ?case by simp
next
  case (Cons w ws)
  then show ?case by (cases "current_role w") simp_all
qed

lemma filter_length_update:
  "i < length xs \<Longrightarrow>
     length (filter P (xs[i := x])) + (if P (xs ! i) then 1 else 0)
       = length (filter P xs) + (if P x then 1 else 0)"
proof (induction xs arbitrary: i)
  case Nil
  then show ?case by simp
next
  case (Cons y ys)
  show ?case
  proof (cases i)
    case 0
    then show ?thesis by simp
  next
    case (Suc j)
    with Cons.prems have "j < length ys" by simp
    from Cons.IH [OF this] Suc show ?thesis by simp
  qed
qed

lemma set_role_count:
  assumes "t < length ws"
  shows "length (filter (\<lambda>w. current_role w = r) (set_role t r' ws))
           + (if current_role (ws ! t) = r then 1 else 0)
         = length (filter (\<lambda>w. current_role w = r) ws) + (if r' = r then 1 else 0)"
  using filter_length_update [OF assms, of "\<lambda>w. current_role w = r" "(ws ! t)\<lparr>current_role := r'\<rparr>"]
  by (simp add: set_role_def)

lemma find_SomeD: "find P xs = Some x \<Longrightarrow> x \<in> set xs \<and> P x"
  by (auto simp: find_Some_iff)

text \<open>The three outcomes of a rebalancer wake-up: nothing, scale up, scale down.\<close>

lemma run_qhap_loop_cases:
  "run_qhap_loop now s = s
   \<or> (HAP_COOLDOWN \<le> now - last_rebalance_time s
       \<and> HAP_HIGH_WATERMARK < length (queue_long s)
       \<and> 1 < snd (get_partition_status s)
       \<and> (\<exists>t. t < length (workers s) \<and> current_role (workers s ! t) = SHORT
             \<and> run_qhap_loop now s
                 = s\<lparr>workers := set_role t LONG (workers s), last_rebalance_time := now\<rparr>))
   \<or> (HAP_COOLDOWN \<le> now - last_rebalance_time s
       \<and> length (queue_long s) < HAP_LOW_WATERMARK
       \<and> 2 < fst (get_partition_status s)
       \<and> (\<exists>t. t < length (workers s) \<and> current_role (workers s ! t) = LONG
             \<and> run_qhap_loop now s
                 = s\<lparr>workers := set_role t SHORT (workers s), last_rebalance_time := now\<rparr>))"
proof (cases "now - last_rebalance_time s < HAP_COOLDOWN")
  case True
  then show ?thesis by (simp add: run_qhap_loop_def)
next
  case cool: False
  show ?thesis
  proof (cases "HAP_HIGH_WATERMARK < length (queue_long s) \<and> 1 < snd (get_partition_status s)")
    case up: True
    show ?thesis
    proof (cases "find (\<lambda>i. current_role (workers s ! i) = SHORT) [0..<length (workers s)]")
      case None
      with cool up show ?thesis by (simp add: run_qhap_loop_def Let_def)
    next
      case (Some t)
      from find_SomeD [OF Some] have "t < length (workers s)" "current_role (workers s ! t) = SHORT"
        by simp_all
      moreover have "run_qhap_loop now s
          = s\<lparr>workers := set_role t LONG (workers s), last_rebalance_time := now\<rparr>"
        using cool up Some by (simp add: run_qhap_loop_def Let_def)
      ultimately show ?thesis using cool up by auto
    qed
  next
    case no_up: False
    show ?thesis
    proof (cases "length (queue_long s) < HAP_LOW_WATERMARK \<and> 2 < fst (get_partition_status s)")
      case down: True
      show ?thesis
      proof (cases "find (\<lambda>i. current_role (workers s ! i) = LONG) (rev [0..<length (workers s)])")
        case None
        with cool no_up down show ?thesis by (auto simp: run_qhap_loop_def Let_def)
      next
        case (Some t)
        from find_SomeD [OF Some] have "t < length (workers s)" "current_role (workers s ! t) = LONG"
          by simp_all
        moreover have "run_qhap_loop now s
            = s\<lparr>workers := set_role t SHORT (workers s), last_rebalance_time := now\<rparr>"
          using cool no_up down Some by (auto simp: run_qhap_loop_def Let_def)
        ultimately show ?thesis using cool down by auto
      qed
    next
      case False
      with cool no_up show ?thesis by (auto simp: run_qhap_loop_def Let_def)
    qed
  qed
qed

lemma run_qhap_loop_queues:
  "queue_long (run_qhap_loop now s) = queue_long s"
  "queue_short (run_qhap_loop now s) = queue_short s"
  "length (workers (run_qhap_loop now s)) = length (workers s)"
  "map active_requests (workers (run_qhap_loop now s)) = map active_requests (workers s)"
  using run_qhap_loop_cases [of now s]
  by (auto simp: set_role_def map_update_same)

lemma run_qhap_loop_short_kept:
  assumes "1 \<le> snd (get_partition_status s)"
  shows "1 \<le> snd (get_partition_status (run_qhap_loop now s))"
proof -
  consider (same) "run_qhap_loop now s = s"
    | (up) t where "1 < snd (get_partition_status s)" "t < length (workers s)"
        "current_role (workers s ! t) = SHORT"
        "run_qhap_loop now s = s\<lparr>workers := set_role t LONG (workers s), last_rebalance_time := now\<rparr>"
    | (down) t where "t < length (workers s)" "current_role (workers s ! t) = LONG"
        "run_qhap_loop now s = s\<lparr>workers := set_role t SHORT (workers s), last_rebalance_time := now\<rparr>"
    using run_qhap_loop_cases [of now s] by blast
  then show ?thesis
  proof cases
    case same
    with assms show ?thesis by simp
  next
    case up
    from set_role_count [OF up(2), of SHORT LONG] up(3)
    have "length (filter (\<lambda>w. current_role w = SHORT) (set_role t LONG (workers s))) + 1
        = length (filter (\<lambda>w. current_role w = SHORT) (workers s))"
      by simp
    with up(1,4) show ?thesis by (simp add: get_partition_status_def)
  next
    case down
    from set_role_count [OF down(1), of SHORT SHORT] down(2)
    have "length (filter (\<lambda>w. current_role w = SHORT) (set_role t SHORT (workers s)))
        = length (filter (\<lambda>w. current_role w = SHORT) (workers s)) + 1"
      by simp
    with assms down(3) show ?thesis by (simp add: get_partition_status_def)
  qed
qed

lemma partition_of_roles:
  "get_partition_status s
     = (length (filter (\<lambda>r. r = LONG) (map current_role (workers s))),
        length (filter (\<lambda>r. r = SHORT) (map current_role (workers s))))"
  by (simp add: get_partition_status_def filter_map comp_def)

lemma step_partition_kept:
  assumes "length (workers (scheduler sys)) = 4"
    and "1 \<le> snd (get_partition_status (scheduler sys))"
  shows "length (workers (scheduler (step e sys))) = 4
    \<and> 1 \<le> snd (get_partition_status (scheduler (step e sys)))"
proof (cases "\<exists>now. e = Tick now")
  case True
  then obtain now where "e = Tick now" by blast
  with assms(1) run_qhap_loop_short_kept [OF assms(2), of now] show ?thesis
    by (simp add: run_qhap_loop_queues(3))
next
  case False
  then have "roles (step e sys) = roles sys"
    using step_roles [of e sys] by blast
  then have same: "map current_role (workers (scheduler (step e sys)))
      = map current_role (workers (scheduler sys))"
    by (simp add: roles_def)
  have "length (workers (scheduler (step e sys))) = length (workers (scheduler sys))"
    using arg_cong [OF same, of length] by simp
  moreover have "get_partition_status (scheduler (step e sys)) = get_partition_status (scheduler sys)"
    by (simp add: partition_of_roles same)
  ultimately show ?thesis using assms by simp
qed

lemma run_partition_kept:
  assumes "length (workers (scheduler sys)) = 4"
    and "1 \<le> snd (get_partition_status (scheduler sys))"
  shows "length (workers (scheduler (run es sys))) = 4
    \<and> 1 \<le> snd (get_partition_status (scheduler (run es sys)))"
  using assms
proof (induction es arbitrary: sys)
  case Nil
  then show ?case by simp
next
  case (Cons e es)
  from step_partition_kept [OF Cons.prems, of e]
  show ?case using Cons.IH [of "step e sys"] by simp
qed

lemma System_init_partition:
  "length (workers (scheduler (System_init t0))) = 4"
  "get_partition_status (scheduler (System_init t0)) = (2, 2)"
  by (simp_all add: eval_defs)

text \<open>
  C3. In every state that a run of arrivals, task starts, returns of forwards and
  rebalancer wake-ups reaches from the initial scheduler (4 workers, 2 LONG and 2 SHORT),
  the numbers of LONG and SHORT workers add up to 4 and at least one worker is SHORT.
\<close>

theorem partition_invariant:
  "fst (get_partition_status (scheduler (run es (System_init t0))))
     + snd (get_partition_status (scheduler (run es (System_init t0)))) = 4
   \<and> 1 \<le> snd (get_partition_status (scheduler (run es (System_init t0))))
   \<and> length (workers (scheduler (run es (System_init t0)))) = 4"
proof -
  have start: "length (workers (scheduler (System_init t0))) = 4"
    "1 \<le> snd (get_partition_status (scheduler (System_init t0)))"
    by (simp_all add: System_init_partition)
  from run_partition_kept [OF start, of es]
  show ?thesis
    using partition_total [of "workers (scheduler (run es (System_init t0)))"]
    by (simp add: get_partition_status_def)
qed

lemma run_qhap_loop_cooling:
  "now - last_rebalance_time s < HAP_COOLDOWN \<Longrightarrow> run_qhap_loop now s = s"
  by (simp add: run_qhap_loop_def)

lemma run_qhap_loop_transition:
  assumes "map current_role (workers (run_qhap_loop now s)) \<noteq> map current_role (workers s)"
  shows "HAP_COOLDOWN \<le> now - last_rebalance_time s
    \<and> last_rebalance_time (run_qhap_loop now s) = now"
  using run_qhap_loop_cases [of now s] assms by auto

lemma run_within_cooldown:
  assumes "ticks_within_cooldown (last_rebalance_time (scheduler sys)) es"
  shows "roles (run es sys) = roles sys
    \<and> last_rebalance_time (scheduler (run es sys)) = last_rebalance_time (scheduler sys)"
  using assms
proof (induction es arbitrary: sys)
  case Nil
  then show ?case by simp
next
  case (Cons e es)
  have kept: "roles (step e sys) = roles sys
      \<and> last_rebalance_time (scheduler (step e sys)) = last_rebalance_time (scheduler sys)"
  proof (cases "\<exists>now. e = Tick now")
    case True
    then obtain now where e: "e = Tick now" by blast
    with Cons.prems have "now - last_rebalance_time (scheduler sys) < HAP_COOLDOWN" by simp
    with e show ?thesis by (simp add: run_qhap_loop_cooling)
  next
    case False
    then show ?thesis using step_roles [of e sys] step_rebalance_time [of e sys] by blast
  qed
  have "ticks_within_cooldown (last_rebalance_time (scheduler sys)) es"
    using Cons.prems by (cases e) simp_all
  with kept Cons.IH [of "step e sys"] show ?case by simp
qed

text \<open>
  C7. A rebalancer wake-up changes a role only if at least the cooldown (5 seconds) has
  passed since \<^verbatim>\<open>last_rebalance_time\<close>, and then it sets \<^verbatim>\<open>last_rebalance_time\<close> to its
  clock reading. After such a change at time \<open>t\<close>, whatever happens next (arrivals,
  task starts, returns of forwards, and wake-ups that read a clock less than 5 seconds
  after \<open>t\<close>), no role changes: two backlog conditions less than the cooldown apart
  give at most one transition.
\<close>

theorem cooldown_gate:
  assumes "roles (step (Tick t) sys) \<noteq> roles sys"
    and "ticks_within_cooldown t es"
  shows "HAP_COOLDOWN \<le> t - last_rebalance_time (scheduler sys)
    \<and> last_rebalance_time (scheduler (step (Tick t) sys)) = t
    \<and> roles (run es (step (Tick t) sys)) = roles (step (Tick t) sys)"
proof -
  from assms(1) have changed:
    "map current_role (workers (run_qhap_loop t (scheduler sys)))
       \<noteq> map current_role (workers (scheduler sys))"
    by (simp add: roles_def)
  from run_qhap_loop_transition [OF changed]
  have gate: "HAP_COOLDOWN \<le> t - last_rebalance_time (scheduler sys)"
    and stamp: "last_rebalance_time (scheduler (step (Tick t) sys)) = t"
    by simp_all
  from assms(2) stamp
  have "ticks_within_cooldown (last_rebalance_time (scheduler (step (Tick t) sys))) es"
    by simp
  from run_within_cooldown [OF this] gate stamp show ?thesis by simp
qed

lemma backlog_system_state:
  "backlog_system =
     \<lparr>scheduler =
        \<lparr>workers = [worker_at 0 LONG 8 0, worker_at 1 LONG 8 0,
                    worker_at 2 SHORT 0 0, worker_at 3 SHORT 0 0],
         queue_long = map (\<lambda>i. (i, long_body)) [0, 1, 2, 3, 4, 5, 6, 7, 8, 9, 10],
         queue_short = [],
         last_rebalance_time = 0\<rparr>,
      ready = [],
      sending = concat (replicate 8 [(0, None), (1, None)]),
      futures = replicate 11 Unresolved,
      calls = concat (replicate 8 [Inc 0, Inc 1])\<rparr>"
  by (simp add: backlog_system_def backlog_trace_def worker_at_def eval_defs eval_nat_numeral)

lemma backlog_tick_state:
  "step (Tick 5) backlog_system =
     \<lparr>scheduler =
        \<lparr>workers = [worker_at 0 LONG 8 0, worker_at 1 LONG 8 0,
                    worker_at 2 LONG 0 0, worker_at 3 SHORT 0 0],
         queue_long = map (\<lambda>i. (i, long_body)) [0, 1, 2, 3, 4, 5, 6, 7, 8, 9, 10],
         queue_short = [],
         last_rebalance_time = 5\<rparr>,
      ready = [],
      sending = concat (replicate 8 [(0, None), (1, None)]),
      futures = replicate 11 Unresolved,
      calls = concat (replicate 8 [Inc 0, Inc 1])\<rparr>"
  unfolding backlog_system_state by (simp add: worker_at_def eval_defs eval_nat_numeral)

lemma backlog_system_roles: "roles backlog_system = [LONG, LONG, SHORT, SHORT]"
  by (simp add: backlog_system_state worker_at_def roles_def)

lemma backlog_tick_roles: "roles (step (Tick 5) backlog_system) = [LONG, LONG, LONG, SHORT]"
  unfolding backlog_tick_state by (simp add: worker_at_def roles_def)

lemma relief_roles:
  "roles (step (Tick 10) (run relief_trace (step (Tick 5) backlog_system)))
     = [LONG, LONG, SHORT, SHORT]"
  unfolding backlog_tick_state relief_trace_def
  by (simp add: worker_at_def eval_defs eval_nat_numeral)

theorem cooldown_gate_witness:
  "roles (step (Tick 5) backlog_system) = [LONG, LONG, LONG, SHORT]
   \<and> roles backlog_system = [LONG, LONG, SHORT, SHORT]
   \<and> ticks_within_cooldown 5 relief_trace
   \<and> roles (run relief_trace (step (Tick 5) backlog_system)) = [LONG, LONG, LONG, SHORT]
   \<and> roles (step (Tick 10) (run relief_trace (step (Tick 5) backlog_system)))
       = [LONG, LONG, SHORT, SHORT]"
proof -
  have changed: "roles (step (Tick 5) backlog_system) \<noteq> roles backlog_system"
    unfolding backlog_system_roles backlog_tick_roles by simp
  have within: "ticks_within_cooldown 5 relief_trace"
    by (simp add: relief_trace_def HAP_COOLDOWN_def)
  from cooldown_gate [OF changed within] backlog_tick_roles backlog_system_roles within relief_roles
  show ?thesis by simp
qed

section \<open>Drain and the rebalancer\<close>

lemma drain_short_creates_run_tasks:
  "count_list (snd (drain_short now s created)) Dispatch_queue = count_list created Dispatch_queue"
proof (induction now s created rule: drain_short.induct)
  case (1 now s created)
  show ?case
  proof (cases "queue_short s")
    case Nil
    then show ?thesis by simp
  next
    case (Cons p ps)
    show ?thesis
    proof (cases "try_get_worker now s SHORT")
      case None
      with Cons show ?thesis by simp
    next
      case (Some worker)
      from "1.IH" [OF Cons Some] Cons Some show ?thesis by simp
    qed
  qed
qed

lemma drain_long_creates_run_tasks:
  "count_list (snd (drain_long now s created)) Dispatch_queue = count_list created Dispatch_queue"
proof (induction now s created rule: drain_long.induct)
  case (1 now s created)
  show ?case
  proof (cases "queue_long s")
    case Nil
    then show ?thesis by simp
  next
    case (Cons p ps)
    show ?thesis
    proof (cases "try_get_worker now s LONG")
      case None
      with Cons show ?thesis by simp
    next
      case (Some worker)
      from "1.IH" [OF Cons Some] Cons Some show ?thesis by simp
    qed
  qed
qed

lemma dispatch_queue_creates_run_tasks:
  "count_list (snd (dispatch_queue now s)) Dispatch_queue = 0"
proof -
  have "dispatch_queue now s
      = drain_long now (fst (drain_short now s [])) (snd (drain_short now s []))"
    by (simp add: dispatch_queue_def split_beta)
  then have "count_list (snd (dispatch_queue now s)) Dispatch_queue
      = count_list (snd (drain_short now s [])) Dispatch_queue"
    by (simp only: drain_long_creates_run_tasks)
  also have "\<dots> = count_list ([] :: task list) Dispatch_queue"
    by (rule drain_short_creates_run_tasks)
  finally show ?thesis by simp
qed

lemma count_list_append: "count_list (xs @ ys) x = count_list xs x + count_list ys x"
  by (induction xs) auto

lemma step_creates_dispatch:
  "count_list (ready (step e sys)) Dispatch_queue \<le> count_list (ready sys) Dispatch_queue
   \<or> (\<exists>k outcome now. e = Send_done k outcome now)"
proof (cases e)
  case (Arrive body now)
  then show ?thesis
    by (simp add: chat_completions_def process_request_begin_def Let_def split: option.splits)
next
  case (Run_next now)
  show ?thesis
  proof (cases "ready sys")
    case Nil
    with Run_next show ?thesis by simp
  next
    case (Cons t ts)
    with Run_next show ?thesis
      by (cases t)
        (simp_all add: process_request_begin_def split_beta count_list_append
          dispatch_queue_creates_run_tasks)
  qed
next
  case (Send_done k outcome now)
  then show ?thesis by blast
next
  case (Tick now)
  then show ?thesis by simp
qed

lemma set_role_fields:
  "map worker_id (set_role t r ws) = map worker_id ws"
  "map url (set_role t r ws) = map url ws"
  "map last_active_time (set_role t r ws) = map last_active_time ws"
  unfolding set_role_def
  using map_update_same [of worker_id "\<lambda>w. w\<lparr>current_role := r\<rparr>" ws t]
    map_update_same [of url "\<lambda>w. w\<lparr>current_role := r\<rparr>" ws t]
    map_update_same [of last_active_time "\<lambda>w. w\<lparr>current_role := r\<rparr>" ws t]
  by simp_all

lemma run_qhap_loop_fields:
  "map worker_id (workers (run_qhap_loop now s)) = map worker_id (workers s)"
  "map url (workers (run_qhap_loop now s)) = map url (workers s)"
  "map last_active_time (workers (run_qhap_loop now s)) = map last_active_time (workers s)"
  using run_qhap_loop_cases [of now s]
  by (auto simp: set_role_fields)

text \<open>
  C2, as the code has it. A rebalancer wake-up does not trigger a drain: with or without
  a role change it changes nothing but roles and \<^verbatim>\<open>last_rebalance_time\<close>. The ready tasks,
  both wait queues, the suspended forwards, the futures, the log of counter calls, and
  every worker's counter, idle stamp, id and URL stay as they were. Of all events only
  the return of a forward creates a \<^verbatim>\<open>dispatch_queue\<close> task (in the \<^verbatim>\<open>finally\<close> block of
  \<^verbatim>\<open>process_request\<close>, after the release).
\<close>

theorem tick_triggers_no_drain:
  "ready (step (Tick now) sys) = ready sys
   \<and> queue_long (scheduler (step (Tick now) sys)) = queue_long (scheduler sys)
   \<and> queue_short (scheduler (step (Tick now) sys)) = queue_short (scheduler sys)
   \<and> sending (step (Tick now) sys) = sending sys
   \<and> futures (step (Tick now) sys) = futures sys
   \<and> calls (step (Tick now) sys) = calls sys
   \<and> map active_requests (workers (scheduler (step (Tick now) sys)))
       = map active_requests (workers (scheduler sys))
   \<and> map last_active_time (workers (scheduler (step (Tick now) sys)))
       = map last_active_time (workers (scheduler sys))
   \<and> map worker_id (workers (scheduler (step (Tick now) sys)))
       = map worker_id (workers (scheduler sys))
   \<and> map url (workers (scheduler (step (Tick now) sys))) = map url (workers (scheduler sys))
   \<and> (count_list (ready (step e sys)) Dispatch_queue \<le> count_list (ready sys) Dispatch_queue
       \<or> (\<exists>k outcome t. e = Send_done k outcome t))"
  using step_creates_dispatch [of e sys]
  by (simp add: run_qhap_loop_queues run_qhap_loop_fields)

text \<open>
  C2 as stated fails. With sixteen long requests in flight and eleven queued, the
  wake-up at time 5 turns the third worker into a LONG worker. It has room, so the queued
  requests could be placed on it, but no \<^verbatim>\<open>dispatch_queue\<close> task exists, the queue still
  holds the eleven requests, and the next wake-up at time 6 finds the same state.
\<close>

theorem scale_up_without_drain:
  "roles backlog_system = [LONG, LONG, SHORT, SHORT]
   \<and> roles (step (Tick 5) backlog_system) = [LONG, LONG, LONG, SHORT]
   \<and> ready (step (Tick 5) backlog_system) = []
   \<and> length (queue_long (scheduler (step (Tick 5) backlog_system))) = 11
   \<and> try_get_worker 5 (scheduler (step (Tick 5) backlog_system)) LONG = Some 2
   \<and> step (Tick 6) (step (Tick 5) backlog_system) = step (Tick 5) backlog_system"
proof -
  have "ready (step (Tick 5) backlog_system) = []"
    "length (queue_long (scheduler (step (Tick 5) backlog_system))) = 11"
    unfolding backlog_tick_state by simp_all
  moreover have "try_get_worker 5 (scheduler (step (Tick 5) backlog_system)) LONG = Some 2"
    unfolding backlog_tick_state by (simp add: worker_at_def eval_defs)
  moreover have "step (Tick 6) (step (Tick 5) backlog_system) = step (Tick 5) backlog_system"
    unfolding backlog_tick_state by (simp add: run_qhap_loop_cooling HAP_COOLDOWN_def)
  ultimately show ?thesis
    using backlog_system_roles backlog_tick_roles by simp
qed

section \<open>The concurrency limit\<close>

text \<open>
  C1 fails on the code. Both SHORT workers hold 8 requests and two short requests wait.
  One forward on the third worker returns (counter 7) and the drain it triggers runs:
  \<^verbatim>\<open>try_get_worker\<close> answers with the third worker for both queued requests, because
  \<^verbatim>\<open>inc_requests\<close> runs only when the created tasks start. After they have started, the
  counter of the third worker is 9, above \<^verbatim>\<open>WORKER_CONCURRENCY_LIMIT\<close>. The other parts
  of the claim hold, see \<open>accepts_minus_releases\<close> below: the counter is the number
  of accepts minus the number of releases, and it is never negative.
\<close>

lemma overload_prefix_state:
  "run overload_prefix (System_init 0) =
     \<lparr>scheduler =
        \<lparr>workers = [worker_at 0 LONG 0 0, worker_at 1 LONG 0 0,
                    worker_at 2 SHORT 7 0, worker_at 3 SHORT 8 0],
         queue_long = [],
         queue_short = [],
         last_rebalance_time = 0\<rparr>,
      ready = [Run_task 2 (0, short_body), Run_task 2 (1, short_body)],
      sending = (3, None) # concat (replicate 7 [(2, None), (3, None)]),
      futures = [Unresolved, Unresolved],
      calls = concat (replicate 8 [Inc 2, Inc 3]) @ [Dec 2]\<rparr>"
  by (simp add: overload_prefix_def run_append worker_at_def eval_defs eval_nat_numeral)

lemma overload_trace_state:
  "run overload_trace (System_init 0) =
     \<lparr>scheduler =
        \<lparr>workers = [worker_at 0 LONG 0 0, worker_at 1 LONG 0 0,
                    worker_at 2 SHORT 9 0, worker_at 3 SHORT 8 0],
         queue_long = [],
         queue_short = [],
         last_rebalance_time = 0\<rparr>,
      ready = [],
      sending = (3, None) # concat (replicate 7 [(2, None), (3, None)])
                @ [(2, Some 0), (2, Some 1)],
      futures = [Unresolved, Unresolved],
      calls = concat (replicate 8 [Inc 2, Inc 3]) @ [Dec 2, Inc 2, Inc 2]\<rparr>"
proof -
  have "run overload_trace (System_init 0)
      = run [Run_next 2, Run_next 2] (run overload_prefix (System_init 0))"
    by (simp only: overload_trace_def run_append)
  then show ?thesis
    unfolding overload_prefix_state
    by (simp add: worker_at_def eval_defs eval_nat_numeral)
qed

theorem drain_exceeds_limit:
  "map active_requests (workers (scheduler (run overload_prefix (System_init 0)))) = [0, 0, 7, 8]
   \<and> ready (run overload_prefix (System_init 0))
       = [Run_task 2 (0, short_body), Run_task 2 (1, short_body)]
   \<and> map active_requests (workers (scheduler (run overload_trace (System_init 0)))) = [0, 0, 9, 8]
   \<and> accepts (run overload_trace (System_init 0)) 2
       - releases (run overload_trace (System_init 0)) 2 = 9
   \<and> WORKER_CONCURRENCY_LIMIT < active_requests (workers (scheduler (run overload_trace (System_init 0))) ! 2)"
  unfolding overload_prefix_state overload_trace_state
  by (simp add: worker_at_def accepts_def releases_def WORKER_CONCURRENCY_LIMIT_def
      eval_nat_numeral)

section \<open>Admission\<close>

lemma chat_completions_placed:
  "try_get_worker now (scheduler sys) (task_type_of body) = Some worker \<Longrightarrow>
     chat_completions now body sys = process_request_begin worker None sys"
  by (simp add: chat_completions_def Let_def)

lemma chat_completions_queued:
  assumes "try_get_worker now (scheduler sys) (task_type_of body) = None"
  shows "queue_long (scheduler (chat_completions now body sys))
           = queue_long (scheduler sys)
             @ (if task_type_of body = LONG then [(length (futures sys), body)] else [])"
    and "queue_short (scheduler (chat_completions now body sys))
           = queue_short (scheduler sys)
             @ (if task_type_of body = SHORT then [(length (futures sys), body)] else [])"
  using assms by (cases "task_type_of body"; simp add: chat_completions_def Let_def)+

text \<open>
  What the estimate and the class are, for any messages: the estimate is the number of
  characters of \<^verbatim>\<open>str()\<close> of all \<^verbatim>\<open>content\<close> values together (a message without the field
  counts as empty), divided by 4 and rounded down, and 0 for no messages. The handler
  computes the class once from it, LONG above 3000 and SHORT otherwise (so SHORT for a
  body without messages), tries placement for that class, and on failure appends the
  request to the queue of that class only.
\<close>

lemma estimate_and_class:
  "estimate_token_count msgs
     = int (sum_list (map (\<lambda>m. length (py_str (case m ''content'' of None \<Rightarrow> Json_text []
                                                                    | Some c \<Rightarrow> c))) msgs))
       div 4
   \<and> estimate_token_count [] = 0
   \<and> task_type_of body
       = (if estimate_token_count (case messages body of None \<Rightarrow> [] | Some ms \<Rightarrow> ms) > 3000
          then LONG else SHORT)
   \<and> task_type_of \<lparr>messages = None\<rparr> = SHORT
   \<and> (case try_get_worker now (scheduler sys) (task_type_of body) of
         Some worker \<Rightarrow> chat_completions now body sys = process_request_begin worker None sys
       | None \<Rightarrow>
           queue_long (scheduler (chat_completions now body sys))
             = queue_long (scheduler sys)
               @ (if task_type_of body = LONG then [(length (futures sys), body)] else [])
           \<and> queue_short (scheduler (chat_completions now body sys))
               = queue_short (scheduler sys)
                 @ (if task_type_of body = SHORT then [(length (futures sys), body)] else []))"
proof -
  have "estimate_token_count [] = 0"
    by (simp add: estimate_token_count_def)
  moreover have "task_type_of body
       = (if estimate_token_count (case messages body of None \<Rightarrow> [] | Some ms \<Rightarrow> ms) > 3000
          then LONG else SHORT)"
    by (simp add: task_type_of_def STATIC_THRESHOLD_def Let_def)
  moreover have "task_type_of \<lparr>messages = None\<rparr> = SHORT"
    by (simp add: task_type_of_def STATIC_THRESHOLD_def estimate_token_count_def)
  moreover have "case try_get_worker now (scheduler sys) (task_type_of body) of
         Some worker \<Rightarrow> chat_completions now body sys = process_request_begin worker None sys
       | None \<Rightarrow>
           queue_long (scheduler (chat_completions now body sys))
             = queue_long (scheduler sys)
               @ (if task_type_of body = LONG then [(length (futures sys), body)] else [])
           \<and> queue_short (scheduler (chat_completions now body sys))
               = queue_short (scheduler sys)
                 @ (if task_type_of body = SHORT then [(length (futures sys), body)] else [])"
  proof (cases "try_get_worker now (scheduler sys) (task_type_of body)")
    case None
    from chat_completions_queued [OF None] None show ?thesis by simp
  next
    case (Some worker)
    from chat_completions_placed [OF Some] Some show ?thesis by simp
  qed
  ultimately show ?thesis using estimate_token_count_sum [of msgs] by blast
qed

lemma task_type_of_boundary_body: "task_type_of boundary_body = SHORT"
  by (simp add: task_type_of_def boundary_body_def estimate_token_count_def STATIC_THRESHOLD_def)

lemma boundary_body_estimate:
  "estimate_token_count (case messages boundary_body of None \<Rightarrow> [] | Some ms \<Rightarrow> ms) = 3000"
  by (simp add: boundary_body_def estimate_token_count_def)

text \<open>
  C10 fails on the code where a content is null. \<^verbatim>\<open>m.get("content", "")\<close> gives the
  empty text only when the key is absent; a null content goes through \<^verbatim>\<open>str()\<close> and
  counts the 4 characters of \<^verbatim>\<open>None\<close>. A single message with null content has the
  estimate 1 although no content holds a character. A conversation of 12000 characters
  has the estimate 3000 and is SHORT; with one more message of null content the
  estimate is 3001 and the request is LONG. (The \<^verbatim>\<open>estimate_token_count\<close> of
  tools/router_smart.py skips a null content.)
\<close>

theorem null_content_counted:
  "estimate_token_count [[''role'' \<mapsto> Json_text ''assistant'', ''content'' \<mapsto> Json_null]] = 1
   \<and> estimate_token_count text_messages = 3000
   \<and> task_type_of \<lparr>messages = Some text_messages\<rparr> = SHORT
   \<and> estimate_token_count null_messages = 3001
   \<and> task_type_of \<lparr>messages = Some null_messages\<rparr> = LONG"
  by (simp add: task_type_of_def estimate_token_count_def null_messages_def text_messages_def
      STATIC_THRESHOLD_def)

section \<open>Return of a forward\<close>

lemma process_request_end_effect:
  "snd (process_request_end now worker outcome sys)
     = sys\<lparr>scheduler := update_worker worker (dec_requests now) (scheduler sys),
           calls := calls sys @ [Dec worker],
           ready := ready sys @ [Dispatch_queue]\<rparr>"
  "fst (process_request_end now worker outcome sys)
     = (case outcome of Responded status_code \<Rightarrow> Inr status_code | Raised \<Rightarrow> Inl ())"
  by (simp_all add: process_request_end_def Let_def)

lemma run_task_end_effect:
  "run_task_end now worker fut outcome sys
     = sys\<lparr>scheduler := update_worker worker (dec_requests now) (scheduler sys),
           calls := calls sys @ [Dec worker],
           ready := ready sys @ [Dispatch_queue],
           futures := (futures sys)[fut := (case outcome of Responded status_code \<Rightarrow> Has_result status_code
                                                 | Raised \<Rightarrow> Has_exception)]\<rparr>"
  by (cases outcome) (simp_all add: run_task_end_def process_request_end_def Let_def)

text \<open>
  C9, as the code has it. When the forward of a queued request that was placed on a
  worker returns, with a response of any status code or with an exception, the worker is
  released once (one \<^verbatim>\<open>dec_requests\<close> call, and the suspended call is gone), the future of
  the request gets the exception if \<^verbatim>\<open>send\<close> raised and otherwise the response with the
  status code of the backend as its result, the wait queues are not touched and the only
  task created is a \<^verbatim>\<open>dispatch_queue\<close> (the request is not tried again).
\<close>

theorem forward_return:
  assumes "k < length (sending sys)" and "sending sys ! k = (worker, Some fut)"
    and "fut < length (futures sys)"
  shows "calls (step (Send_done k outcome now) sys) = calls sys @ [Dec worker]
    \<and> workers (scheduler (step (Send_done k outcome now) sys))
        = (workers (scheduler sys))[worker := dec_requests now (workers (scheduler sys) ! worker)]
    \<and> futures (step (Send_done k outcome now) sys) ! fut
        = (case outcome of Raised \<Rightarrow> Has_exception
                         | Responded status_code \<Rightarrow> Has_result status_code)
    \<and> queue_long (scheduler (step (Send_done k outcome now) sys)) = queue_long (scheduler sys)
    \<and> queue_short (scheduler (step (Send_done k outcome now) sys)) = queue_short (scheduler sys)
    \<and> ready (step (Send_done k outcome now) sys) = ready sys @ [Dispatch_queue]
    \<and> sending (step (Send_done k outcome now) sys)
        = take k (sending sys) @ drop (Suc k) (sending sys)"
  using assms
  by (cases outcome) (simp_all add: Let_def run_task_end_effect update_worker_def)

lemma overload_sending:
  "sending (run overload_trace (System_init 0)) ! 15 = (2, Some 0)"
  "length (sending (run overload_trace (System_init 0))) = 17"
  "length (futures (run overload_trace (System_init 0))) = 2"
  unfolding overload_trace_state by (simp_all add: eval_nat_numeral)

theorem forward_return_witness:
  "futures (step (Send_done 15 Raised 3) (run overload_trace (System_init 0))) ! 0 = Has_exception
   \<and> calls (step (Send_done 15 Raised 3) (run overload_trace (System_init 0)))
       = calls (run overload_trace (System_init 0)) @ [Dec 2]
   \<and> ready (step (Send_done 15 Raised 3) (run overload_trace (System_init 0))) = [Dispatch_queue]
   \<and> length (sending (step (Send_done 15 Raised 3) (run overload_trace (System_init 0)))) = 16"
proof -
  have k: "15 < length (sending (run overload_trace (System_init 0)))"
    and f: "0 < length (futures (run overload_trace (System_init 0)))"
    by (simp_all add: overload_sending)
  have r: "ready (run overload_trace (System_init 0)) = []"
    unfolding overload_trace_state by simp
  from forward_return [OF k overload_sending(1) f, of Raised 3] r overload_sending(2)
  show ?thesis by simp
qed

text \<open>
  C9 as stated fails for a non-success status: the backend answers the placed request of
  future 0 with status 500, and the future is resolved with that response as its result,
  not with a failure.
\<close>

theorem error_status_is_a_result:
  "sending (run overload_trace (System_init 0)) ! 15 = (2, Some 0)
   \<and> futures (run overload_trace (System_init 0)) ! 0 = Unresolved
   \<and> futures (step (Send_done 15 (Responded 500) 3) (run overload_trace (System_init 0))) ! 0
       = Has_result 500
   \<and> futures (step (Send_done 15 (Responded 500) 3) (run overload_trace (System_init 0))) ! 0
       \<noteq> Has_exception"
proof -
  have "futures (step (Send_done 15 (Responded 500) 3) (run overload_trace (System_init 0))) ! 0
       = Has_result 500"
    unfolding overload_trace_state
    by (simp add: Let_def run_task_end_effect eval_nat_numeral)
  moreover have "futures (run overload_trace (System_init 0)) ! 0 = Unresolved"
    unfolding overload_trace_state by simp
  ultimately show ?thesis using overload_sending(1) by simp
qed

section \<open>Accepts and releases\<close>

lemma filter_length_remove:
  "k < length xs \<Longrightarrow>
     length (filter P (take k xs @ drop (Suc k) xs)) + (if P (xs ! k) then 1 else 0)
       = length (filter P xs)"
proof -
  assume k: "k < length xs"
  have "length (filter P xs) = length (filter P (take k xs @ xs ! k # drop (Suc k) xs))"
    using id_take_nth_drop [OF k] by simp
  then show ?thesis by simp
qed

lemma consistent_init: "consistent (System_init t0)"
proof -
  have idle: "\<forall>w \<in> set (workers (scheduler (System_init t0))). active_requests w = 0"
    by (simp add: System_init_def Scheduler_init_def Worker_init_def WORKER_URLS_def
        enumerate_eq_zip Let_def)
  have "active_requests (workers (scheduler (System_init t0)) ! i) = 0"
    if "i < length (workers (scheduler (System_init t0)))" for i
    using idle nth_mem [OF that] by blast
  then show ?thesis
    by (simp add: consistent_def in_flight_def accepts_def releases_def System_init_def)
qed

lemma consistent_begin:
  assumes "consistent sys" and "worker < length (workers (scheduler sys))"
  shows "consistent (process_request_begin worker fut sys)"
proof -
  let ?sys' = "process_request_begin worker fut sys"
  have len: "length (workers (scheduler ?sys')) = length (workers (scheduler sys))"
    by (simp add: process_request_begin_def update_worker_def)
  have counts: "active_requests (workers (scheduler ?sys') ! i) = in_flight ?sys' i
      \<and> accepts ?sys' i - releases ?sys' i = in_flight ?sys' i"
    if "i < length (workers (scheduler sys))" for i
    using assms that
    by (cases "i = worker")
      (simp_all add: consistent_def process_request_begin_def update_worker_def in_flight_def
        accepts_def releases_def inc_requests_def count_list_append)
  from assms counts show ?thesis
    unfolding consistent_def len
    by (simp add: process_request_begin_def)
qed

lemma drain_short_in_range:
  "list_all (task_in_range (length (workers s))) created \<Longrightarrow>
     list_all (task_in_range (length (workers s))) (snd (drain_short now s created))"
proof (induction now s created rule: drain_short.induct)
  case (1 now s created)
  show ?case
  proof (cases "queue_short s")
    case Nil
    with "1.prems" show ?thesis by simp
  next
    case (Cons p ps)
    show ?thesis
    proof (cases "try_get_worker now s SHORT")
      case None
      with Cons "1.prems" show ?thesis by simp
    next
      case (Some worker)
      from try_get_worker_in_range [OF Some] "1.prems"
      have "list_all (task_in_range (length (workers (s\<lparr>queue_short := ps\<rparr>))))
          (created @ [Run_task worker p])"
        by simp
      from "1.IH" [OF Cons Some this] Cons Some show ?thesis by simp
    qed
  qed
qed

lemma drain_long_in_range:
  "list_all (task_in_range (length (workers s))) created \<Longrightarrow>
     list_all (task_in_range (length (workers s))) (snd (drain_long now s created))"
proof (induction now s created rule: drain_long.induct)
  case (1 now s created)
  show ?case
  proof (cases "queue_long s")
    case Nil
    with "1.prems" show ?thesis by simp
  next
    case (Cons p ps)
    show ?thesis
    proof (cases "try_get_worker now s LONG")
      case None
      with Cons "1.prems" show ?thesis by simp
    next
      case (Some worker)
      from try_get_worker_in_range [OF Some] "1.prems"
      have "list_all (task_in_range (length (workers (s\<lparr>queue_long := ps\<rparr>))))
          (created @ [Run_task worker p])"
        by simp
      from "1.IH" [OF Cons Some this] Cons Some show ?thesis by simp
    qed
  qed
qed

lemma drain_short_workers: "workers (fst (drain_short now s created)) = workers s"
  using drain_short_prefix [of now s created] by auto

lemma dispatch_queue_in_range:
  "list_all (task_in_range (length (workers s))) (snd (dispatch_queue now s))"
proof -
  have eq: "dispatch_queue now s
      = drain_long now (fst (drain_short now s [])) (snd (drain_short now s []))"
    by (simp add: dispatch_queue_def split_beta)
  have "list_all (task_in_range (length (workers s))) (snd (drain_short now s []))"
    by (rule drain_short_in_range) simp
  then have "list_all (task_in_range (length (workers (fst (drain_short now s [])))))
      (snd (drain_short now s []))"
    by (simp only: drain_short_workers)
  from drain_long_in_range [OF this] show ?thesis
    by (simp only: eq drain_short_workers)
qed

lemma consistent_end:
  assumes "consistent sys" and "k < length (sending sys)"
    and "sending sys ! k = (worker, fut)"
  shows "consistent
     (sys\<lparr>sending := take k (sending sys) @ drop (Suc k) (sending sys),
          scheduler := update_worker worker (dec_requests now) (scheduler sys),
          calls := calls sys @ [Dec worker],
          ready := ready sys @ [Dispatch_queue],
          futures := fs\<rparr>)"
    (is "consistent ?sys'")
proof -
  have in_range: "worker < length (workers (scheduler sys))"
    using assms by (auto simp: consistent_def list_all_length)
  have removed: "in_flight ?sys' i + (if i = worker then 1 else 0) = in_flight sys i" for i
    using filter_length_remove [OF assms(2), of "\<lambda>e. fst e = i"] assms(3)
    by (auto simp: in_flight_def)
  have busy: "1 \<le> active_requests (workers (scheduler sys) ! worker)"
  proof -
    have "0 \<le> in_flight ?sys' worker" by (simp add: in_flight_def)
    with removed [of worker] have "1 \<le> in_flight sys worker" by simp
    with assms(1) in_range show ?thesis by (simp add: consistent_def)
  qed
  have len: "length (workers (scheduler ?sys')) = length (workers (scheduler sys))"
    by (simp add: update_worker_def)
  have counts: "active_requests (workers (scheduler ?sys') ! i) = in_flight ?sys' i
      \<and> accepts ?sys' i - releases ?sys' i = in_flight ?sys' i"
    if "i < length (workers (scheduler sys))" for i
  proof -
    from assms(1) that have old: "active_requests (workers (scheduler sys) ! i) = in_flight sys i"
      "accepts sys i - releases sys i = in_flight sys i"
      by (simp_all add: consistent_def)
    have a1: "active_requests (workers (scheduler ?sys') ! i)
        = active_requests (workers (scheduler sys) ! i) - (if i = worker then 1 else 0)"
      using that busy by (simp add: update_worker_def dec_requests_active nth_list_update)
    have a2: "accepts ?sys' i = accepts sys i"
      by (simp add: accepts_def count_list_append)
    have a3: "releases ?sys' i = releases sys i + (if i = worker then 1 else 0)"
      by (simp add: releases_def count_list_append)
    show ?thesis
      using old a1 a2 a3 removed [of i] by (cases "i = worker") simp_all
  qed
  have sending': "list_all (\<lambda>e. fst e < length (workers (scheduler sys))) (sending ?sys')"
    using assms(1)
    by (auto simp: consistent_def list_all_iff dest: in_set_takeD in_set_dropD)
  have ready': "list_all (task_in_range (length (workers (scheduler sys)))) (ready ?sys')"
    using assms(1) by (simp add: consistent_def)
  from counts sending' ready' show ?thesis
    unfolding consistent_def len by blast
qed

lemma consistent_step:
  assumes "consistent sys"
  shows "consistent (step e sys)"
proof (cases e)
  case (Arrive body now)
  show ?thesis
  proof (cases "try_get_worker now (scheduler sys) (task_type_of body)")
    case None
    with Arrive assms show ?thesis
      by (simp add: chat_completions_def Let_def consistent_def in_flight_def accepts_def
          releases_def)
  next
    case (Some worker)
    from consistent_begin [OF assms try_get_worker_in_range [OF Some]] Arrive Some
    show ?thesis by (simp add: chat_completions_placed)
  qed
next
  case (Run_next now)
  show ?thesis
  proof (cases "ready sys")
    case Nil
    with Run_next assms show ?thesis by simp
  next
    case (Cons t ts)
    have rest: "consistent (sys\<lparr>ready := ts\<rparr>)"
      using assms Cons by (simp add: consistent_def in_flight_def accepts_def releases_def)
    show ?thesis
    proof (cases t)
      case (Run_task worker p)
      with assms Cons have "worker < length (workers (scheduler (sys\<lparr>ready := ts\<rparr>)))"
        by (simp add: consistent_def)
      from consistent_begin [OF rest this] Run_next Cons Run_task show ?thesis by simp
    next
      case Dispatch_queue
      have "consistent (sys\<lparr>scheduler := fst (dispatch_queue now (scheduler sys)),
          ready := ts @ snd (dispatch_queue now (scheduler sys))\<rparr>)"
        using rest dispatch_queue_in_range [of "scheduler sys" now]
        by (simp add: consistent_def dispatch_queue_workers in_flight_def accepts_def
            releases_def)
      with Run_next Cons Dispatch_queue show ?thesis by (simp add: split_beta)
    qed
  qed
next
  case (Send_done k outcome now)
  show ?thesis
  proof (cases "k < length (sending sys)")
    case False
    with Send_done assms show ?thesis by simp
  next
    case True
    obtain worker fut where entry: "sending sys ! k = (worker, fut)"
      by (cases "sending sys ! k")
    show ?thesis
    proof (cases fut)
      case None
      from consistent_end [OF assms True entry, where now = now and fs = "futures sys"]
      show ?thesis using Send_done True entry None
        by (simp add: Let_def process_request_end_effect)
    next
      case (Some f)
      from consistent_end [OF assms True entry, where now = now and
          fs = "(futures sys)[f := (case outcome of Responded status_code \<Rightarrow> Has_result status_code
                                  | Raised \<Rightarrow> Has_exception)]"]
      show ?thesis using Send_done True entry Some
        by (simp add: Let_def run_task_end_effect)
    qed
  qed
next
  case (Tick now)
  have same: "active_requests (workers (run_qhap_loop now (scheduler sys)) ! i)
      = active_requests (workers (scheduler sys) ! i)"
    if "i < length (workers (scheduler sys))" for i
  proof -
    have "map active_requests (workers (run_qhap_loop now (scheduler sys))) ! i
        = map active_requests (workers (scheduler sys)) ! i"
      by (simp only: run_qhap_loop_queues(4))
    with that show ?thesis by (simp add: run_qhap_loop_queues(3))
  qed
  with Tick assms show ?thesis
    by (simp add: consistent_def run_qhap_loop_queues(3) in_flight_def accepts_def releases_def)
qed

lemma consistent_run: "consistent sys \<Longrightarrow> consistent (run es sys)"
  by (induction es arbitrary: sys) (simp_all add: consistent_step)

text \<open>
  In every state that a run reaches from the initial scheduler, the counter of a worker
  is the number of \<^verbatim>\<open>inc_requests\<close> calls minus the number of \<^verbatim>\<open>dec_requests\<close> calls on
  it, and it is not negative. A forward that returns finds the counter of its worker at
  1 or more, so the floor of \<^verbatim>\<open>dec_requests\<close> is never used.
\<close>

lemma accepts_minus_releases:
  assumes "i < 4"
  shows "active_requests (workers (scheduler (run es (System_init t0))) ! i)
           = accepts (run es (System_init t0)) i - releases (run es (System_init t0)) i
    \<and> 0 \<le> active_requests (workers (scheduler (run es (System_init t0))) ! i)"
proof -
  let ?sys = "run es (System_init t0)"
  have c: "consistent ?sys"
    by (rule consistent_run [OF consistent_init])
  have "length (workers (scheduler ?sys)) = 4"
    using run_partition_kept [of "System_init t0" es] by (simp add: System_init_partition)
  with assms c have "active_requests (workers (scheduler ?sys) ! i) = in_flight ?sys i"
    "accepts ?sys i - releases ?sys i = in_flight ?sys i"
    by (simp_all add: consistent_def)
  moreover have "0 \<le> in_flight ?sys i" by (simp add: in_flight_def)
  ultimately show ?thesis by simp
qed

lemma release_finds_busy_worker:
  assumes "k < length (sending (run es (System_init t0)))"
  shows "1 \<le> active_requests (workers (scheduler (run es (System_init t0)))
                                  ! fst (sending (run es (System_init t0)) ! k))"
proof -
  let ?sys = "run es (System_init t0)"
  let ?w = "fst (sending ?sys ! k)"
  have c: "consistent ?sys"
    by (rule consistent_run [OF consistent_init])
  with assms have w: "?w < length (workers (scheduler ?sys))"
    by (simp add: consistent_def list_all_length)
  have "sending ?sys ! k \<in> set (filter (\<lambda>e. fst e = ?w) (sending ?sys))"
    using assms by simp
  then have "0 < length (filter (\<lambda>e. fst e = ?w) (sending ?sys))"
    by (rule length_pos_if_in_set)
  then have "1 \<le> int (length (filter (\<lambda>e. fst e = ?w) (sending ?sys)))"
    by linarith
  then have "1 \<le> in_flight ?sys ?w" by (simp only: in_flight_def)
  with c w show ?thesis by (simp add: consistent_def)
qed

section \<open>Stealing in the earlier router\<close>

text \<open>The stealing rule of the earlier \<^verbatim>\<open>try_get_worker\<close> has the same gate.\<close>

lemma slot_steal_gate:
  assumes "slot_try_get_worker now s task_type = Some j"
  shows "j < length (slot_workers s) \<and> \<not> is_busy (slot_workers s ! j)
      \<and> (slot_role (slot_workers s ! j) \<noteq> task_type \<longrightarrow>
            task_type = LONG \<and> slot_role (slot_workers s ! j) = SHORT \<and> slot_queue_short s = []
            \<and> slot_get_idle_duration now (slot_workers s ! j) > RASP_STEAL_COOLDOWN)"
proof (cases "filter (\<lambda>i. slot_role (slot_workers s ! i) = task_type \<and> \<not> is_busy (slot_workers s ! i))
                [0..<length (slot_workers s)]")
  case Nil
  with assms have "task_type = LONG"
    and "find (\<lambda>i. slot_role (slot_workers s ! i) = SHORT \<and> \<not> is_busy (slot_workers s ! i)
                    \<and> slot_queue_short s = []
                    \<and> slot_get_idle_duration now (slot_workers s ! i) > RASP_STEAL_COOLDOWN)
          [0..<length (slot_workers s)] = Some j"
    by (auto simp: slot_try_get_worker_def Let_def split: if_splits)
  then show ?thesis by (auto dest: find_SomeD)
next
  case (Cons c cs)
  with assms have "j = c" by (simp add: slot_try_get_worker_def Let_def)
  moreover have "c \<in> set (filter (\<lambda>i. slot_role (slot_workers s ! i) = task_type
      \<and> \<not> is_busy (slot_workers s ! i)) [0..<length (slot_workers s)])"
    by (simp add: Cons)
  ultimately show ?thesis by simp
qed


end
